theory Spec2Isabelle
  imports Main
begin

section \<open>Strings and regular expressions of the host language\<close>

text \<open>
  The program is TypeScript.  A string is a sequence of UTF-16 code units; none of the
  regular expressions of \<^verbatim>\<open>AnonymizationService.ts\<close> carries the \<^verbatim>\<open>u\<close> flag, so every
  pattern works on code units.  A code unit is modelled as a natural number (below
  \<open>65536\<close> in every real string); a string literal of the source is written as the list of
  its code units, with the source text in a comment.
\<close>

type_synonym jstring = "nat list"

text \<open>
  The fragment of the pattern language that the service uses: single characters, character
  classes (possibly negated) given as a list of inclusive ranges, concatenation, ordered
  alternation, and the greedy and the lazy star.  Groups only delimit (no pattern has a
  back reference), so they leave no trace in the syntax tree.
\<close>

datatype regex =
    Eps
  | Chr nat
  | Cls bool "(nat \<times> nat) list"
  | Seq regex regex
  | Alt regex regex
  | Star regex
  | LazyStar regex

fun in_ranges :: "(nat \<times> nat) list \<Rightarrow> nat \<Rightarrow> bool" where
  "in_ranges [] x = False"
| "in_ranges ((lo, hi) # rs) x = ((lo \<le> x \<and> x \<le> hi) \<or> in_ranges rs x)"

definition singles :: "nat list \<Rightarrow> (nat \<times> nat) list" where
  "singles cs = map (\<lambda>c. (c, c)) cs"

text \<open>
  \<open>matches r s\<close> lists, in the order in which a backtracking matcher tries them, the
  remainders of \<open>s\<close> after every way in which \<open>r\<close> can match at the start of \<open>s\<close>.  The
  patterns of the service have no back reference, no look-around and no anchor, so whether
  the rest of a pattern matches depends on the remainder only, and the first element of the
  list is the match that the engine reports when \<open>r\<close> is the whole pattern.  A greedy star
  tries one more iteration before it tries to stop, a lazy star the other way round; as in
  the language definition, an iteration that consumes nothing is rejected.
\<close>

function matches :: "regex \<Rightarrow> jstring \<Rightarrow> jstring list" where
  "matches Eps s = [s]"
| "matches (Chr c) s = (case s of [] \<Rightarrow> [] | x # xs \<Rightarrow> if x = c then [xs] else [])"
| "matches (Cls neg rs) s =
     (case s of [] \<Rightarrow> [] | x # xs \<Rightarrow> if in_ranges rs x \<noteq> neg then [xs] else [])"
| "matches (Seq a b) s = concat (map (matches b) (matches a s))"
| "matches (Alt a b) s = matches a s @ matches b s"
| "matches (Star a) s =
     concat (map (matches (Star a)) (filter (\<lambda>t. length t < length s) (matches a s))) @ [s]"
| "matches (LazyStar a) s =
     s # concat (map (matches (LazyStar a)) (filter (\<lambda>t. length t < length s) (matches a s)))"
  by pat_completeness auto
termination
  by (relation "measures [\<lambda>(r, s). size r, \<lambda>(r, s). length s]") auto

declare matches.simps(6,7) [simp del]

text \<open>
  Derived forms: \<^verbatim>\<open>r+\<close>, \<^verbatim>\<open>r?\<close>, \<^verbatim>\<open>r{m,}\<close>, \<^verbatim>\<open>r{m}\<close>, \<^verbatim>\<open>r{m,n}\<close> and a literal string.  A
  counted repetition is written out as \<open>m\<close> copies followed by a star or by nested options;
  this tries the numbers of iterations in the same order as the counted loop of the engine,
  from the largest down, for the bodies used here (none of them matches the empty string).
\<close>

definition Plus :: "regex \<Rightarrow> regex" where
  "Plus r = Seq r (Star r)"

definition Opt :: "regex \<Rightarrow> regex" where
  "Opt r = Alt r Eps"

primrec AtLeast :: "nat \<Rightarrow> regex \<Rightarrow> regex" where
  "AtLeast 0 r = Star r"
| "AtLeast (Suc n) r = Seq r (AtLeast n r)"

primrec UpTo :: "nat \<Rightarrow> regex \<Rightarrow> regex" where
  "UpTo 0 r = Eps"
| "UpTo (Suc n) r = Opt (Seq r (UpTo n r))"

primrec Exactly :: "nat \<Rightarrow> regex \<Rightarrow> regex" where
  "Exactly 0 r = Eps"
| "Exactly (Suc n) r = Seq r (Exactly n r)"

definition Between :: "nat \<Rightarrow> nat \<Rightarrow> regex \<Rightarrow> regex" where
  "Between m n r = Seq (Exactly m r) (UpTo (n - m) r)"

primrec Lit :: "jstring \<Rightarrow> regex" where
  "Lit [] = Eps"
| "Lit (c # cs) = Seq (Chr c) (Lit cs)"

text \<open>
  One search of the engine (\<^verbatim>\<open>RegExp.prototype.exec\<close> from index 0, as used by
  \<^verbatim>\<open>test\<close> and by \<^verbatim>\<open>match\<close> without the \<^verbatim>\<open>g\<close> flag): the leftmost position with a
  match, and there the first match in backtracking order.
\<close>

fun search :: "regex \<Rightarrow> jstring \<Rightarrow> jstring option" where
  "search r [] = (case matches r [] of [] \<Rightarrow> None | t # _ \<Rightarrow> Some [])"
| "search r (c # cs) =
     (case matches r (c # cs) of
        [] \<Rightarrow> search r cs
      | t # _ \<Rightarrow> Some (take (length (c # cs) - length t) (c # cs)))"

definition test :: "regex \<Rightarrow> jstring \<Rightarrow> bool" where
  "test r s = (search r s \<noteq> None)"

text \<open>
  The loop shared by \<^verbatim>\<open>replace\<close> and \<^verbatim>\<open>match\<close> with a global pattern: search from the
  last index, record the match, continue after it; after an empty match the index advances
  by one code unit.  The result is the input cut into kept code units and matches.
\<close>

datatype piece = Keep nat | Hit jstring

function scan :: "regex \<Rightarrow> jstring \<Rightarrow> piece list" where
  "scan r s =
     (case matches r s of
        [] \<Rightarrow> (case s of [] \<Rightarrow> [] | c # cs \<Rightarrow> Keep c # scan r cs)
      | t # _ \<Rightarrow>
          if length t < length s then Hit (take (length s - length t) s) # scan r t
          else Hit [] # (case s of [] \<Rightarrow> [] | c # cs \<Rightarrow> Keep c # scan r cs))"
  by pat_completeness auto
termination
  by (relation "measure (\<lambda>(r, s). length s)") auto

declare scan.simps [simp del]

fun hits :: "piece list \<Rightarrow> jstring list" where
  "hits [] = []"
| "hits (Keep c # ps) = hits ps"
| "hits (Hit m # ps) = m # hits ps"

fun render :: "(jstring \<Rightarrow> jstring) \<Rightarrow> piece list \<Rightarrow> jstring" where
  "render f [] = []"
| "render f (Keep c # ps) = c # render f ps"
| "render f (Hit m # ps) = f m @ render f ps"

definition replace :: "regex \<Rightarrow> (jstring \<Rightarrow> jstring) \<Rightarrow> jstring \<Rightarrow> jstring" where
  "replace r f s = render f (scan r s)"

text \<open>\<^verbatim>\<open>s.match(r)\<close> for a global \<open>r\<close>: the array of all matches, or null when there is none.\<close>

definition match_all :: "regex \<Rightarrow> jstring \<Rightarrow> jstring list option" where
  "match_all r s = (case hits (scan r s) of [] \<Rightarrow> None | m # ms \<Rightarrow> Some (m # ms))"

text \<open>\<^verbatim>\<open>s.includes(t)\<close>.\<close>

fun starts_with :: "jstring \<Rightarrow> jstring \<Rightarrow> bool" where
  "starts_with s [] = True"
| "starts_with [] (c # cs) = False"
| "starts_with (x # xs) (c # cs) = (x = c \<and> starts_with xs cs)"

fun str_includes :: "jstring \<Rightarrow> jstring \<Rightarrow> bool" where
  "str_includes [] t = starts_with [] t"
| "str_includes (x # xs) t = (starts_with (x # xs) t \<or> str_includes xs t)"

text \<open>
  \<^verbatim>\<open>parseInt\<close> on a string that starts with decimal digits reads the leading run of digits
  (leading zeros allowed).  The service compares the result only with small constants and
  never prints it, so the rounding of very long digit strings to a double is not visible:
  the value is modelled as a natural number.  The template literals \<^verbatim>\<open>${n}\<close> print an
  integer in decimal.
\<close>

definition is_digit :: "nat \<Rightarrow> bool" where
  "is_digit c = (0x30 \<comment> \<open>0\<close> \<le> c \<and> c \<le> 0x39 \<comment> \<open>9\<close>)"

definition parseInt :: "jstring \<Rightarrow> nat" where
  "parseInt s = foldl (\<lambda>a c. 10 * a + (c - 0x30 \<comment> \<open>0\<close>)) 0 (takeWhile is_digit s)"

fun show_nat :: "nat \<Rightarrow> jstring" where
  "show_nat n = (if n < 10 then [0x30 \<comment> \<open>0\<close> + n] else show_nat (n div 10) @ [0x30 \<comment> \<open>0\<close> + n mod 10])"

declare show_nat.simps [simp del]

definition show_int :: "int \<Rightarrow> jstring" where
  "show_int i = (if i < 0 then 0x2D \<comment> \<open>-\<close> # show_nat (nat (- i)) else show_nat (nat i))"

section \<open>The rule table\<close>

text \<open>
  \<^verbatim>\<open>anonymizationRules\<close>: seven entries, each a pattern with the \<^verbatim>\<open>g\<close> flag and a
  replacement that is a string or a function of the match.  \<^verbatim>\<open>Object.entries\<close> visits them
  in the order of the object literal.  No replacement string contains \<^verbatim>\<open>$\<close>, so a string
  replacement is inserted as it is.
\<close>

datatype replacement = Literal jstring | Transform "jstring \<Rightarrow> jstring"

record rule =
  key :: jstring
  pattern :: regex
  replacement :: replacement

text \<open>Character classes: \<^verbatim>\<open>\d\<close>, \<^verbatim>\<open>\w\<close>, \<^verbatim>\<open>\s\<close>, the dot, and the script ranges of the source.\<close>

definition digit :: "(nat \<times> nat) list" where
  "digit = [(0x30 \<comment> \<open>0\<close>, 0x39 \<comment> \<open>9\<close>)]"

definition word :: "(nat \<times> nat) list" where
  "word = [(0x41 \<comment> \<open>A\<close>, 0x5A \<comment> \<open>Z\<close>), (0x61 \<comment> \<open>a\<close>, 0x7A \<comment> \<open>z\<close>), (0x30 \<comment> \<open>0\<close>, 0x39 \<comment> \<open>9\<close>), (0x5F \<comment> \<open>_\<close>, 0x5F \<comment> \<open>_\<close>)]"

definition space :: "(nat \<times> nat) list" where
  "space = [(0x9, 0xD), (0x20, 0x20), (0xA0, 0xA0), (0x1680, 0x1680), (0x2000, 0x200A),
            (0x2028, 0x2029), (0x202F, 0x202F), (0x205F, 0x205F), (0x3000, 0x3000),
            (0xFEFF, 0xFEFF)]"

definition Dot :: regex where
  "Dot = Cls True [(0xA, 0xA), (0xD, 0xD), (0x2028, 0x2029)]"

definition kanji :: "(nat \<times> nat) list" where
  "kanji = [(0x4E00, 0x9FAF)]"

definition kana_kanji :: "(nat \<times> nat) list" where
  "kana_kanji = [(0x4E00, 0x9FAF), (0x3040, 0x309F), (0x30A0, 0x30FF)]"

definition D :: regex where
  "D = Cls False digit"

text \<open>
  \<^verbatim>\<open>/\u682a\u5f0f\u4f1a\u793e[\u4e00-\u9faf\u3040-\u309f\u30a0-\u30ff]+|[...]+\u682a\u5f0f\u4f1a\u793e|[...]+\s*(Inc\.|Corp\.|Co\.,?\s*Ltd\.?)/g\<close>
\<close>

definition companyName_pattern :: regex where
  "companyName_pattern =
     Alt (Seq (Lit [0x682A, 0x5F0F, 0x4F1A, 0x793E] \<comment> \<open>kabushiki-gaisha, the company suffix\<close>) (Plus (Cls False kana_kanji)))
    (Alt (Seq (Plus (Cls False kana_kanji)) (Lit [0x682A, 0x5F0F, 0x4F1A, 0x793E] \<comment> \<open>kabushiki-gaisha, the company suffix\<close>))
         (Seq (Plus (Cls False kana_kanji))
         (Seq (Star (Cls False space))
              (Alt (Lit [0x49, 0x6E, 0x63, 0x2E] \<comment> \<open>Inc.\<close>)
              (Alt (Lit [0x43, 0x6F, 0x72, 0x70, 0x2E] \<comment> \<open>Corp.\<close>)
                   (Seq (Lit [0x43, 0x6F, 0x2E] \<comment> \<open>Co.\<close>) (Seq (Opt (Chr 0x2C \<comment> \<open>,\<close>))
                   (Seq (Star (Cls False space)) (Seq (Lit [0x4C, 0x74, 0x64] \<comment> \<open>Ltd\<close>) (Opt (Chr 0x2E \<comment> \<open>.\<close>)))))))))))"

text \<open>
  \<^verbatim>\<open>/[\u7530\u4e2d|\u4f50\u85e4|\u9234\u6728|\u9ad8\u6a4b|\u6e21\u8fba|\u4f0a\u85e4|\u5c71\u672c|\u4e2d\u6751|\u5c0f\u6797|\u52a0\u85e4][\u4e00-\u9faf]{1,3}[\u69d8|\u3055\u3093|\u6c0f|\u793e\u9577|\u90e8\u9577|\u8ab2\u9577|\u4e3b\u4efb]/g\<close>:
  the two bracket expressions are character classes, so each stands for one code unit out
  of the listed ones (the bar included).
\<close>

definition personName_pattern :: regex where
  "personName_pattern =
     Seq (Cls False (singles [0x7530, 0x4E2D, 0x7C, 0x4F50, 0x85E4, 0x7C, 0x9234, 0x6728, 0x7C, 0x9AD8, 0x6A4B, 0x7C, 0x6E21, 0x8FBA, 0x7C, 0x4F0A, 0x85E4, 0x7C, 0x5C71, 0x672C, 0x7C, 0x4E2D, 0x6751, 0x7C, 0x5C0F, 0x6797, 0x7C, 0x52A0, 0x85E4] \<comment> \<open>ten surnames of two characters each, with bars between them\<close>))
    (Seq (Between 1 3 (Cls False kanji))
         (Cls False (singles [0x69D8, 0x7C, 0x3055, 0x3093, 0x7C, 0x6C0F, 0x7C, 0x793E, 0x9577, 0x7C, 0x90E8, 0x9577, 0x7C, 0x8AB2, 0x9577, 0x7C, 0x4E3B, 0x4EFB] \<comment> \<open>seven honorifics and titles, with bars between them\<close>)))"

text \<open>\<^verbatim>\<open>/[\w\.-]+@[\w\.-]+\.\w+/g\<close>\<close>

definition email_pattern :: regex where
  "email_pattern =
     Seq (Plus (Cls False (word @ singles [0x2E, 0x2D] \<comment> \<open>.-\<close>)))
    (Seq (Chr 0x40 \<comment> \<open>@\<close>)
    (Seq (Plus (Cls False (word @ singles [0x2E, 0x2D] \<comment> \<open>.-\<close>)))
    (Seq (Chr 0x2E \<comment> \<open>.\<close>) (Plus (Cls False word)))))"

text \<open>\<^verbatim>\<open>/0\d{1,4}-\d{1,4}-\d{4}|0\d{9,10}/g\<close>\<close>

definition phone_pattern :: regex where
  "phone_pattern =
     Alt (Seq (Chr 0x30 \<comment> \<open>0\<close>) (Seq (Between 1 4 D) (Seq (Chr 0x2D \<comment> \<open>-\<close>)
         (Seq (Between 1 4 D) (Seq (Chr 0x2D \<comment> \<open>-\<close>) (Exactly 4 D))))))
         (Seq (Chr 0x30 \<comment> \<open>0\<close>) (Between 9 10 D))"

text \<open>
  \<^verbatim>\<open>/(\d{1,3},?)+(\u5104|\u4e07)?\u5186\u306e\u58f2\u4e0a|\u58f2\u4e0a(\d{1,3},?)+(\u5104|\u4e07)?\u5186|\u30b7\u30a7\u30a2\d+(\.\d+)?%|\u524d\u5e74\u6bd4\d+(\.\d+)?%/g\<close>
\<close>

definition grouped_number :: regex where
  "grouped_number = Plus (Seq (Between 1 3 D) (Opt (Chr 0x2C \<comment> \<open>,\<close>)))"

definition oku_or_man :: regex where
  "oku_or_man = Opt (Alt (Chr 0x5104 \<comment> \<open>oku\<close>) (Chr 0x4E07 \<comment> \<open>man\<close>))"

definition decimal_percent :: regex where
  "decimal_percent = Seq (Plus D) (Seq (Opt (Seq (Chr 0x2E \<comment> \<open>.\<close>) (Plus D))) (Chr 0x25 \<comment> \<open>%\<close>))"

definition specificNumbers_pattern :: regex where
  "specificNumbers_pattern =
     Alt (Seq grouped_number (Seq oku_or_man (Lit [0x5186, 0x306E, 0x58F2, 0x4E0A] \<comment> \<open>yen of sales\<close>)))
    (Alt (Seq (Lit [0x58F2, 0x4E0A] \<comment> \<open>sales\<close>) (Seq grouped_number (Seq oku_or_man (Chr 0x5186 \<comment> \<open>yen\<close>))))
    (Alt (Seq (Lit [0x30B7, 0x30A7, 0x30A2] \<comment> \<open>share\<close>) decimal_percent)
         (Seq (Lit [0x524D, 0x5E74, 0x6BD4] \<comment> \<open>compared with the previous year\<close>) decimal_percent)))"

definition specificNumbers_replacement :: "jstring \<Rightarrow> jstring" where
  "specificNumbers_replacement m =
     (if str_includes m [0x5104, 0x5186] \<comment> \<open>oku yen, hundred million yen\<close> then [0x6570, 0x5341, 0x5104, 0x5186, 0x898F, 0x6A21, 0x306E, 0x58F2, 0x4E0A] \<comment> \<open>sales on the scale of billions of yen\<close>
      else if str_includes m [0x4E07, 0x5186] \<comment> \<open>man yen, ten thousand yen\<close> then [0x6570, 0x5343, 0x4E07, 0x5186, 0x898F, 0x6A21, 0x306E, 0x58F2, 0x4E0A] \<comment> \<open>sales on the scale of tens of millions of yen\<close>
      else if str_includes m [0x30B7, 0x30A7, 0x30A2] \<comment> \<open>share\<close> then [0x696D, 0x754C, 0x30C8, 0x30C3, 0x30D7, 0x30AF, 0x30E9, 0x30B9, 0x306E, 0x30B7, 0x30A7, 0x30A2] \<comment> \<open>a top-class share of the industry\<close>
      else if str_includes m [0x524D, 0x5E74, 0x6BD4] \<comment> \<open>compared with the previous year\<close> then [0x524D, 0x5E74, 0x6BD4, 0x5927, 0x5E45, 0x5897] \<comment> \<open>a large increase over the previous year\<close>
      else [0x975E, 0x516C, 0x958B] \<comment> \<open>undisclosed\<close>)"

text \<open>
  \<^verbatim>\<open>/\u3012\d{3}-\d{4}.*?[\u4e00-\u9faf]+[\u90fd\u9053\u5e9c\u770c].*?[\u4e00-\u9faf\d\-]+/g\<close>
\<close>

definition address_pattern :: regex where
  "address_pattern =
     Seq (Chr 0x3012 \<comment> \<open>the postal mark\<close>) (Seq (Exactly 3 D) (Seq (Chr 0x2D \<comment> \<open>-\<close>) (Seq (Exactly 4 D)
    (Seq (LazyStar Dot) (Seq (Plus (Cls False kanji))
    (Seq (Cls False (singles [0x90FD, 0x9053, 0x5E9C, 0x770C] \<comment> \<open>to, do, fu, ken: the four kinds of prefecture\<close>))
    (Seq (LazyStar Dot) (Plus (Cls False (kanji @ digit @ singles [0x2D] \<comment> \<open>-\<close>))))))))))"

text \<open>\<^verbatim>\<open>/\u300c[\u4e00-\u9faf\u3040-\u309f\u30a0-\u30ff\w\s]+\u300d/g\<close>\<close>

definition productName_pattern :: regex where
  "productName_pattern =
     Seq (Chr 0x300C \<comment> \<open>left corner bracket\<close>) (Seq (Plus (Cls False (kana_kanji @ word @ space))) (Chr 0x300D \<comment> \<open>right corner bracket\<close>))"

definition productName_replacement :: "jstring \<Rightarrow> jstring" where
  "productName_replacement m =
     (if str_includes m [0x30B7, 0x30B9, 0x30C6, 0x30E0] \<comment> \<open>system\<close> \<or> str_includes m [0x30BD, 0x30D5, 0x30C8] \<comment> \<open>soft(ware)\<close> then [0x300C, 0x72EC, 0x81EA, 0x958B, 0x767A, 0x30B7, 0x30B9, 0x30C6, 0x30E0, 0x300D] \<comment> \<open>in corner brackets: system of own development\<close>
      else if str_includes m [0x30B5, 0x30FC, 0x30D3, 0x30B9] \<comment> \<open>service\<close> then [0x300C, 0x81EA, 0x793E, 0x30B5, 0x30FC, 0x30D3, 0x30B9, 0x300D] \<comment> \<open>in corner brackets: own service\<close>
      else [0x300C, 0x81EA, 0x793E, 0x88FD, 0x54C1, 0x300D] \<comment> \<open>in corner brackets: own product\<close>)"

definition anonymizationRules :: "rule list" where
  "anonymizationRules =
     [\<lparr>key = [0x63, 0x6F, 0x6D, 0x70, 0x61, 0x6E, 0x79, 0x4E, 0x61, 0x6D, 0x65] \<comment> \<open>companyName\<close>, pattern = companyName_pattern,
        replacement = Literal [0x67D0, 0x5927, 0x624B, 0x4F01, 0x696D] \<comment> \<open>a certain major company\<close>\<rparr>,
      \<lparr>key = [0x70, 0x65, 0x72, 0x73, 0x6F, 0x6E, 0x4E, 0x61, 0x6D, 0x65] \<comment> \<open>personName\<close>, pattern = personName_pattern,
        replacement = Literal [0x62C5, 0x5F53, 0x8005] \<comment> \<open>the person in charge\<close>\<rparr>,
      \<lparr>key = [0x65, 0x6D, 0x61, 0x69, 0x6C] \<comment> \<open>email\<close>, pattern = email_pattern,
        replacement = Literal [0x63, 0x6F, 0x6E, 0x74, 0x61, 0x63, 0x74, 0x40, 0x65, 0x78, 0x61, 0x6D, 0x70, 0x6C, 0x65, 0x2E, 0x63, 0x6F, 0x6D] \<comment> \<open>contact@example.com\<close>\<rparr>,
      \<lparr>key = [0x70, 0x68, 0x6F, 0x6E, 0x65] \<comment> \<open>phone\<close>, pattern = phone_pattern,
        replacement = Literal [0x30, 0x58, 0x58, 0x2D, 0x58, 0x58, 0x58, 0x58, 0x2D, 0x58, 0x58, 0x58, 0x58] \<comment> \<open>0XX-XXXX-XXXX\<close>\<rparr>,
      \<lparr>key = [0x73, 0x70, 0x65, 0x63, 0x69, 0x66, 0x69, 0x63, 0x4E, 0x75, 0x6D, 0x62, 0x65, 0x72, 0x73] \<comment> \<open>specificNumbers\<close>, pattern = specificNumbers_pattern,
        replacement = Transform specificNumbers_replacement\<rparr>,
      \<lparr>key = [0x61, 0x64, 0x64, 0x72, 0x65, 0x73, 0x73] \<comment> \<open>address\<close>, pattern = address_pattern,
        replacement = Literal [0x672C, 0x793E, 0x6240, 0x5728, 0x5730] \<comment> \<open>head office location\<close>\<rparr>,
      \<lparr>key = [0x70, 0x72, 0x6F, 0x64, 0x75, 0x63, 0x74, 0x4E, 0x61, 0x6D, 0x65] \<comment> \<open>productName\<close>, pattern = productName_pattern,
        replacement = Transform productName_replacement\<rparr>]"

definition apply_rule :: "rule \<Rightarrow> jstring \<Rightarrow> jstring" where
  "apply_rule r s =
     (case replacement r of
        Literal l \<Rightarrow> replace (pattern r) (\<lambda>_. l) s
      | Transform f \<Rightarrow> replace (pattern r) f s)"

section \<open>Redaction of confidential records\<close>

text \<open>
  A record of \<^verbatim>\<open>companyInfo\<close> as the service reads it: \<^verbatim>\<open>title\<close>, \<^verbatim>\<open>category\<close> and the two
  flags (the table \<^verbatim>\<open>CompanyInfo\<close> declares the first two as text and the flags as booleans).
\<close>

record info =
  title :: jstring
  category :: jstring
  isConfidential :: bool
  isPublic :: bool

datatype error = TypeError | SyntaxError

text \<open>
  \<^verbatim>\<open>getGenericReplacement\<close> reads \<^verbatim>\<open>replacements[category]\<close> from an object literal and falls
  back to the default label when the value is falsy.  The seven own properties are non-empty
  strings.  A property read on an object literal also finds what the literal inherits from
  \<^verbatim>\<open>Object.prototype\<close>: eleven built-in functions and the accessor \<^verbatim>\<open>__proto__\<close>, whose
  value is \<^verbatim>\<open>Object.prototype\<close> itself.  All of them are truthy, so the declared return type
  \<^verbatim>\<open>string\<close> does not hold for these twelve categories.
\<close>

datatype builtin =
    B_constructor | B_hasOwnProperty | B_isPrototypeOf | B_propertyIsEnumerable
  | B_toLocaleString | B_toString | B_valueOf
  | B_defineGetter | B_defineSetter | B_lookupGetter | B_lookupSetter

datatype looked_up = Label jstring | Inherited builtin | ObjectPrototype

definition replacements :: "(jstring \<times> jstring) list" where
  "replacements =
     [([0x66, 0x69, 0x6E, 0x61, 0x6E, 0x63, 0x69, 0x61, 0x6C] \<comment> \<open>financial\<close>, [0x8CA1, 0x52D9, 0x95A2, 0x9023, 0x60C5, 0x5831] \<comment> \<open>financial information\<close>),
      ([0x73, 0x74, 0x72, 0x61, 0x74, 0x65, 0x67, 0x69, 0x63] \<comment> \<open>strategic\<close>, [0x7D4C, 0x55B6, 0x6226, 0x7565, 0x60C5, 0x5831] \<comment> \<open>management strategy information\<close>),
      ([0x70, 0x65, 0x72, 0x73, 0x6F, 0x6E, 0x6E, 0x65, 0x6C] \<comment> \<open>personnel\<close>, [0x4EBA, 0x4E8B, 0x60C5, 0x5831] \<comment> \<open>personnel information\<close>),
      ([0x74, 0x65, 0x63, 0x68, 0x6E, 0x69, 0x63, 0x61, 0x6C] \<comment> \<open>technical\<close>, [0x6280, 0x8853, 0x60C5, 0x5831] \<comment> \<open>technical information\<close>),
      ([0x63, 0x75, 0x73, 0x74, 0x6F, 0x6D, 0x65, 0x72] \<comment> \<open>customer\<close>, [0x9867, 0x5BA2, 0x60C5, 0x5831] \<comment> \<open>customer information\<close>),
      ([0x70, 0x61, 0x72, 0x74, 0x6E, 0x65, 0x72] \<comment> \<open>partner\<close>, [0x30D1, 0x30FC, 0x30C8, 0x30CA, 0x30FC, 0x60C5, 0x5831] \<comment> \<open>partner information\<close>),
      ([0x69, 0x6E, 0x74, 0x65, 0x72, 0x6E, 0x61, 0x6C] \<comment> \<open>internal\<close>, [0x793E, 0x5185, 0x60C5, 0x5831] \<comment> \<open>internal information\<close>)]"

definition object_prototype :: "(jstring \<times> looked_up) list" where
  "object_prototype =
     [([0x63, 0x6F, 0x6E, 0x73, 0x74, 0x72, 0x75, 0x63, 0x74, 0x6F, 0x72] \<comment> \<open>constructor\<close>, Inherited B_constructor),
      ([0x68, 0x61, 0x73, 0x4F, 0x77, 0x6E, 0x50, 0x72, 0x6F, 0x70, 0x65, 0x72, 0x74, 0x79] \<comment> \<open>hasOwnProperty\<close>, Inherited B_hasOwnProperty),
      ([0x69, 0x73, 0x50, 0x72, 0x6F, 0x74, 0x6F, 0x74, 0x79, 0x70, 0x65, 0x4F, 0x66] \<comment> \<open>isPrototypeOf\<close>, Inherited B_isPrototypeOf),
      ([0x70, 0x72, 0x6F, 0x70, 0x65, 0x72, 0x74, 0x79, 0x49, 0x73, 0x45, 0x6E, 0x75, 0x6D, 0x65, 0x72, 0x61, 0x62, 0x6C, 0x65] \<comment> \<open>propertyIsEnumerable\<close>, Inherited B_propertyIsEnumerable),
      ([0x74, 0x6F, 0x4C, 0x6F, 0x63, 0x61, 0x6C, 0x65, 0x53, 0x74, 0x72, 0x69, 0x6E, 0x67] \<comment> \<open>toLocaleString\<close>, Inherited B_toLocaleString),
      ([0x74, 0x6F, 0x53, 0x74, 0x72, 0x69, 0x6E, 0x67] \<comment> \<open>toString\<close>, Inherited B_toString),
      ([0x76, 0x61, 0x6C, 0x75, 0x65, 0x4F, 0x66] \<comment> \<open>valueOf\<close>, Inherited B_valueOf),
      ([0x5F, 0x5F, 0x64, 0x65, 0x66, 0x69, 0x6E, 0x65, 0x47, 0x65, 0x74, 0x74, 0x65, 0x72, 0x5F, 0x5F] \<comment> \<open>__defineGetter__\<close>, Inherited B_defineGetter),
      ([0x5F, 0x5F, 0x64, 0x65, 0x66, 0x69, 0x6E, 0x65, 0x53, 0x65, 0x74, 0x74, 0x65, 0x72, 0x5F, 0x5F] \<comment> \<open>__defineSetter__\<close>, Inherited B_defineSetter),
      ([0x5F, 0x5F, 0x6C, 0x6F, 0x6F, 0x6B, 0x75, 0x70, 0x47, 0x65, 0x74, 0x74, 0x65, 0x72, 0x5F, 0x5F] \<comment> \<open>__lookupGetter__\<close>, Inherited B_lookupGetter),
      ([0x5F, 0x5F, 0x6C, 0x6F, 0x6F, 0x6B, 0x75, 0x70, 0x53, 0x65, 0x74, 0x74, 0x65, 0x72, 0x5F, 0x5F] \<comment> \<open>__lookupSetter__\<close>, Inherited B_lookupSetter),
      ([0x5F, 0x5F, 0x70, 0x72, 0x6F, 0x74, 0x6F, 0x5F, 0x5F] \<comment> \<open>__proto__\<close>, ObjectPrototype)]"

definition getGenericReplacement :: "jstring \<Rightarrow> looked_up" where
  "getGenericReplacement c =
     (case map_of replacements c of
        Some l \<Rightarrow> Label l
      | None \<Rightarrow>
          (case map_of object_prototype c of
             Some v \<Rightarrow> v
           | None \<Rightarrow> Label [0x975E, 0x516C, 0x958B, 0x60C5, 0x5831] \<comment> \<open>undisclosed information\<close>))"

text \<open>
  \<^verbatim>\<open>escapeRegex\<close>: \<^verbatim>\<open>str.replace(/[.*+?^${}()|[\]\\]/g, '\\$&')\<close> puts a backslash before each
  of the fourteen listed characters (\<^verbatim>\<open>$&\<close> in the replacement string stands for the match).
\<close>

definition syntax_chars :: "nat list" where
  "syntax_chars = [0x2E, 0x2A, 0x2B, 0x3F, 0x5E, 0x24, 0x7B, 0x7D, 0x28, 0x29, 0x7C, 0x5B, 0x5D, 0x5C] \<comment> \<open>the fourteen syntax characters . * + ? ^ $ { } ( ) | [ ] and backslash\<close>"

definition escapeRegex :: "jstring \<Rightarrow> jstring" where
  "escapeRegex str = replace (Cls False (singles syntax_chars)) (\<lambda>m. 0x5C \<comment> \<open>backslash\<close> # m) str"

text \<open>
  \<^verbatim>\<open>new RegExp(p, 'g')\<close> for the patterns that \<^verbatim>\<open>escapeRegex\<close> can produce: a pattern made of
  characters that are not syntax characters and of a backslash followed by a syntax
  character is the literal pattern of the characters so described.  On any other pattern
  this reading answers \<^verbatim>\<open>SyntaxError\<close>, which is what the constructor raises for the
  patterns it rejects (it accepts more than this reading does).
\<close>

fun compile :: "jstring \<Rightarrow> error + jstring" where
  "compile [] = Inr []"
| "compile [c] = (if c \<in> set syntax_chars then Inl SyntaxError else Inr [c])"
| "compile (c # d # cs) =
     (if c = 0x5C \<comment> \<open>backslash\<close> then
        (if d \<in> set syntax_chars then
           (case compile cs of Inl e \<Rightarrow> Inl e | Inr l \<Rightarrow> Inr (d # l))
         else Inl SyntaxError)
      else if c \<in> set syntax_chars then Inl SyntaxError
      else (case compile (d # cs) of Inl e \<Rightarrow> Inl e | Inr l \<Rightarrow> Inr (c # l)))"

text \<open>
  What \<^verbatim>\<open>replace\<close> does with the looked-up value.  A string is inserted for every match
  (no label contains \<^verbatim>\<open>$\<close>).  \<^verbatim>\<open>Object.prototype\<close> is not callable, so it is converted to
  the string \<^verbatim>\<open>[object Object]\<close> first.  A built-in function is called for every match with
  the match as its first argument and \<^verbatim>\<open>undefined\<close> as \<^verbatim>\<open>this\<close>, and its result is
  converted to a string: \<^verbatim>\<open>Object(match)\<close> gives the match back; \<^verbatim>\<open>isPrototypeOf\<close> answers
  \<^verbatim>\<open>false\<close> for an argument that is not an object; \<^verbatim>\<open>toString\<close> answers
  \<^verbatim>\<open>[object Undefined]\<close>; the others convert \<^verbatim>\<open>this\<close> to an object, which raises a
  \<^verbatim>\<open>TypeError\<close> for \<^verbatim>\<open>undefined\<close>.
\<close>

fun call_builtin :: "builtin \<Rightarrow> jstring \<Rightarrow> error + jstring" where
  "call_builtin B_constructor m = Inr m"
| "call_builtin B_isPrototypeOf m = Inr [0x66, 0x61, 0x6C, 0x73, 0x65] \<comment> \<open>false\<close>"
| "call_builtin B_toString m = Inr [0x5B, 0x6F, 0x62, 0x6A, 0x65, 0x63, 0x74, 0x20, 0x55, 0x6E, 0x64, 0x65, 0x66, 0x69, 0x6E, 0x65, 0x64, 0x5D] \<comment> \<open>[object Undefined]\<close>"
| "call_builtin b m = Inl TypeError"

fun render_e :: "(jstring \<Rightarrow> error + jstring) \<Rightarrow> piece list \<Rightarrow> error + jstring" where
  "render_e f [] = Inr []"
| "render_e f (Keep c # ps) =
     (case render_e f ps of Inl e \<Rightarrow> Inl e | Inr out \<Rightarrow> Inr (c # out))"
| "render_e f (Hit m # ps) =
     (case f m of
        Inl e \<Rightarrow> Inl e
      | Inr x \<Rightarrow> (case render_e f ps of Inl e \<Rightarrow> Inl e | Inr out \<Rightarrow> Inr (x @ out)))"

definition replace_e :: "regex \<Rightarrow> (jstring \<Rightarrow> error + jstring) \<Rightarrow> jstring \<Rightarrow> error + jstring" where
  "replace_e r f s = render_e f (scan r s)"

fun replace_value :: "regex \<Rightarrow> looked_up \<Rightarrow> jstring \<Rightarrow> error + jstring" where
  "replace_value r (Label l) s = Inr (replace r (\<lambda>_. l) s)"
| "replace_value r ObjectPrototype s = Inr (replace r (\<lambda>_. [0x5B, 0x6F, 0x62, 0x6A, 0x65, 0x63, 0x74, 0x20, 0x4F, 0x62, 0x6A, 0x65, 0x63, 0x74, 0x5D] \<comment> \<open>[object Object]\<close>) s)"
| "replace_value r (Inherited b) s = replace_e r (call_builtin b) s"

text \<open>The body of the first loop of \<^verbatim>\<open>anonymize\<close> for one record.\<close>

definition redact_info :: "info \<Rightarrow> jstring \<Rightarrow> error + jstring" where
  "redact_info i s =
     (if isConfidential i \<and> \<not> isPublic i then
        (case compile (escapeRegex (title i)) of
           Inl e \<Rightarrow> Inl e
         | Inr l \<Rightarrow> replace_value (Lit l) (getGenericReplacement (category i)) s)
      else Inr s)"

fun redact_all :: "info list \<Rightarrow> jstring \<Rightarrow> error + jstring" where
  "redact_all [] s = Inr s"
| "redact_all (i # is) s =
     (case redact_info i s of Inl e \<Rightarrow> Inl e | Inr s' \<Rightarrow> redact_all is s')"

section \<open>Numbers and dates\<close>

text \<open>
  \<^verbatim>\<open>obscureNumbers\<close>.  Both callbacks receive the match and its first group \<^verbatim>\<open>num\<close>.  In both
  patterns the first group is a run of digits at the start of the match, and what follows it
  inside the match is not a digit, so \<^verbatim>\<open>num\<close> is the leading run of digits of the match;
  \<^verbatim>\<open>parseInt\<close> reads exactly that run.

  \<^verbatim>\<open>/(\d{4,})(\u4e07\u5186)/g\<close> and \<^verbatim>\<open>/(\d{2,3})(\.\d+)?%/g\<close>
\<close>

definition money_pattern :: regex where
  "money_pattern = Seq (AtLeast 4 D) (Lit [0x4E07, 0x5186] \<comment> \<open>man yen, ten thousand yen\<close>)"

definition money_band :: "jstring \<Rightarrow> jstring" where
  "money_band m =
     (let value = parseInt (takeWhile is_digit m) in
      if value \<ge> 10000 then [0x6570, 0x5104, 0x5186] \<comment> \<open>several hundred million yen\<close>
      else if value \<ge> 1000 then [0x6570, 0x5343, 0x4E07, 0x5186] \<comment> \<open>several tens of millions of yen\<close>
      else m)"

definition percent_pattern :: regex where
  "percent_pattern = Seq (Between 2 3 D) (Seq (Opt (Seq (Chr 0x2E \<comment> \<open>.\<close>) (Plus D))) (Chr 0x25 \<comment> \<open>%\<close>))"

definition percent_band :: "jstring \<Rightarrow> jstring" where
  "percent_band m =
     (let value = parseInt (takeWhile is_digit m) in
      if value \<ge> 80 then [0x38, 0x30, 0x25, 0x4EE5, 0x4E0A] \<comment> \<open>80% or more\<close>
      else if value \<ge> 50 then [0x35, 0x30, 0x25, 0x4EE5, 0x4E0A] \<comment> \<open>50% or more\<close>
      else if value \<ge> 30 then [0x7D04, 0x33, 0x30, 0x2D, 0x35, 0x30, 0x25] \<comment> \<open>about 30-50%\<close>
      else if value \<ge> 10 then [0x31, 0x30, 0x25, 0x4EE5, 0x4E0A] \<comment> \<open>10% or more\<close>
      else [0x31, 0x30, 0x25, 0x672A, 0x6E80] \<comment> \<open>under 10%\<close>)"

definition obscureNumbers :: "jstring \<Rightarrow> jstring" where
  "obscureNumbers content = replace percent_pattern percent_band (replace money_pattern money_band content)"

text \<open>
  \<^verbatim>\<open>generalizeDates\<close>.  The current year, \<^verbatim>\<open>new Date().getFullYear()\<close>, is a parameter.
  The first callback searches the match for year and month and keeps the match when the
  search fails.  The second callback searches the match for four digits and reads the result
  without a check (\<^verbatim>\<open>match.match(/\d{4}/)![0]\<close>): a failed search there is a \<^verbatim>\<open>TypeError\<close>.

  \<^verbatim>\<open>/20\d{2}\u5e74\d{1,2}\u6708\d{1,2}\u65e5/g\<close>, \<^verbatim>\<open>/20\d{2}\u5e74\d{1,2}\u6708/\<close>,
  \<^verbatim>\<open>/20\d{2}\u5e74/g\<close>, \<^verbatim>\<open>/\d{4}/\<close>
\<close>

definition full_date_pattern :: regex where
  "full_date_pattern =
     Seq (Lit [0x32, 0x30] \<comment> \<open>20\<close>) (Seq (Exactly 2 D) (Seq (Chr 0x5E74 \<comment> \<open>year\<close>) (Seq (Between 1 2 D)
    (Seq (Chr 0x6708 \<comment> \<open>month\<close>) (Seq (Between 1 2 D) (Chr 0x65E5 \<comment> \<open>day\<close>))))))"

definition year_month_pattern :: regex where
  "year_month_pattern =
     Seq (Lit [0x32, 0x30] \<comment> \<open>20\<close>) (Seq (Exactly 2 D) (Seq (Chr 0x5E74 \<comment> \<open>year\<close>) (Seq (Between 1 2 D) (Chr 0x6708 \<comment> \<open>month\<close>))))"

definition year_pattern :: regex where
  "year_pattern = Seq (Lit [0x32, 0x30] \<comment> \<open>20\<close>) (Seq (Exactly 2 D) (Chr 0x5E74 \<comment> \<open>year\<close>))"

definition four_digits :: regex where
  "four_digits = Exactly 4 D"

definition truncate_date :: "jstring \<Rightarrow> jstring" where
  "truncate_date m = (case search year_month_pattern m of Some yearMonth \<Rightarrow> yearMonth | None \<Rightarrow> m)"

definition relative_year :: "int \<Rightarrow> jstring \<Rightarrow> error + jstring" where
  "relative_year currentYear m =
     (case search four_digits m of
        None \<Rightarrow> Inl TypeError
      | Some ds \<Rightarrow>
          (let year = int (parseInt ds); diff = currentYear - year in
           Inr (if diff = 0 then [0x4ECA, 0x5E74] \<comment> \<open>this year\<close>
                else if diff = 1 then [0x6628, 0x5E74] \<comment> \<open>last year\<close>
                else if diff = 2 then [0x4E00, 0x6628, 0x5E74] \<comment> \<open>the year before last\<close>
                else if diff \<le> 5 then show_int diff @ [0x5E74, 0x524D] \<comment> \<open>years ago\<close>
                else [0x6570, 0x5E74, 0x524D] \<comment> \<open>several years ago\<close>)))"

definition generalizeDates :: "int \<Rightarrow> jstring \<Rightarrow> error + jstring" where
  "generalizeDates currentYear content =
     replace_e year_pattern (relative_year currentYear)
       (replace full_date_pattern truncate_date content)"

section \<open>The pipeline\<close>

text \<open>
  \<^verbatim>\<open>anonymize\<close> is an \<^verbatim>\<open>async\<close> method: an exception raised in its body rejects the promise
  it returns.  The model returns the error or the text.
\<close>

definition anonymize :: "int \<Rightarrow> jstring \<Rightarrow> info list \<Rightarrow> error + jstring" where
  "anonymize currentYear content companyInfo =
     (case redact_all companyInfo content of
        Inl e \<Rightarrow> Inl e
      | Inr s \<Rightarrow> generalizeDates currentYear (obscureNumbers (fold apply_rule anonymizationRules s)))"

section \<open>Risk level and report\<close>

datatype level = High | Medium | Low

definition highRiskKeywords :: "jstring list" where
  "highRiskKeywords =
     [[0x58F2, 0x4E0A] \<comment> \<open>sales\<close>, [0x5229, 0x76CA] \<comment> \<open>profit\<close>, [0x53CE, 0x76CA] \<comment> \<open>revenue\<close>, [0x640D, 0x5931] \<comment> \<open>loss\<close>,
      [0x6226, 0x7565] \<comment> \<open>strategy\<close>, [0x8A08, 0x753B] \<comment> \<open>plan\<close>, [0x958B, 0x767A, 0x4E2D] \<comment> \<open>in development\<close>, [0x672A, 0x516C, 0x958B] \<comment> \<open>unpublished\<close>,
      [0x9867, 0x5BA2, 0x30EA, 0x30B9, 0x30C8] \<comment> \<open>customer list\<close>, [0x53D6, 0x5F15, 0x5148] \<comment> \<open>business partner\<close>, [0x5951, 0x7D04] \<comment> \<open>contract\<close>,
      [0x7279, 0x8A31] \<comment> \<open>patent\<close>, [0x6280, 0x8853] \<comment> \<open>technology\<close>, [0x30CE, 0x30A6, 0x30CF, 0x30A6] \<comment> \<open>know-how\<close>]"

text \<open>
  \<^verbatim>\<open>/\d{4,}\u4e07\u5186|\d+\u5104\u5186/\<close>, \<^verbatim>\<open>/\d+%/\<close>, the pattern of full dates, and
  \<^verbatim>\<open>/\u300c[^\u300d]+\u300d/g\<close>
\<close>

definition amount_pattern :: regex where
  "amount_pattern = Alt (Seq (AtLeast 4 D) (Lit [0x4E07, 0x5186] \<comment> \<open>man yen, ten thousand yen\<close>)) (Seq (Plus D) (Lit [0x5104, 0x5186] \<comment> \<open>oku yen, hundred million yen\<close>))"

definition any_percent_pattern :: regex where
  "any_percent_pattern = Seq (Plus D) (Chr 0x25 \<comment> \<open>%\<close>)"

definition quoted_pattern :: regex where
  "quoted_pattern = Seq (Chr 0x300C \<comment> \<open>left corner bracket\<close>) (Seq (Plus (Cls True [(0x300D \<comment> \<open>right corner bracket\<close>, 0x300D \<comment> \<open>right corner bracket\<close>)])) (Chr 0x300D \<comment> \<open>right corner bracket\<close>))"

definition keyword_score :: "jstring \<Rightarrow> jstring list \<Rightarrow> nat" where
  "keyword_score content ks = fold (\<lambda>keyword score. if str_includes content keyword then score + 10 else score) ks 0"

definition risk_score :: "jstring \<Rightarrow> nat" where
  "risk_score content =
     keyword_score content highRiskKeywords
     + (if test amount_pattern content then 20 else 0)
     + (if test any_percent_pattern content then 10 else 0)
     + (if test full_date_pattern content then 5 else 0)
     + (case match_all quoted_pattern content of None \<Rightarrow> 0 | Some properNouns \<Rightarrow> length properNouns * 5)"

definition determineAnonymizationLevel :: "jstring \<Rightarrow> level" where
  "determineAnonymizationLevel content =
     (let score = risk_score content in
      if score \<ge> 50 then High else if score \<ge> 20 then Medium else Low)"

record report =
  changedCount :: nat
  removedInfo :: "jstring list"
  anonymizationLevel :: level

fun count_rules :: "rule list \<Rightarrow> jstring \<Rightarrow> nat \<times> jstring list \<Rightarrow> nat \<times> jstring list" where
  "count_rules [] original acc = acc"
| "count_rules (r # rs) original (count, removed) =
     (case match_all (pattern r) original of
        None \<Rightarrow> count_rules rs original (count, removed)
      | Some ms \<Rightarrow>
          count_rules rs original
            (count + length ms, removed @ [key r @ [0x3A, 0x20] \<comment> \<open>: \<close> @ show_nat (length ms) @ [0x4EF6] \<comment> \<open>the counter word for items\<close>]))"

definition generateAnonymizationReport :: "jstring \<Rightarrow> jstring \<Rightarrow> report" where
  "generateAnonymizationReport original anonymized =
     (let (count, removed) = count_rules anonymizationRules original (0, []) in
      \<lparr>changedCount = count, removedInfo = removed,
       anonymizationLevel = determineAnonymizationLevel original\<rparr>)"

section \<open>Notions used in the statements\<close>

text \<open>
  \<open>needs c r\<close>: by its shape, every match of \<open>r\<close> contains the code unit \<open>c\<close>.
\<close>

fun needs :: "nat \<Rightarrow> regex \<Rightarrow> bool" where
  "needs c Eps = False"
| "needs c (Chr d) = (c = d)"
| "needs c (Cls neg rs) = False"
| "needs c (Seq a b) = (needs c a \<or> needs c b)"
| "needs c (Alt a b) = (needs c a \<and> needs c b)"
| "needs c (Star a) = False"
| "needs c (LazyStar a) = False"

text \<open>
  The five ranges of percentages, as the specification lists them, and the optional decimal
  part of a percentage: nothing, or a point followed by at least one digit.
\<close>

definition five_ranges :: "nat \<Rightarrow> jstring" where
  "five_ranges v =
     (if v \<ge> 80 then [0x38, 0x30, 0x25, 0x4EE5, 0x4E0A] \<comment> \<open>80% or more\<close>
      else if v \<ge> 50 then [0x35, 0x30, 0x25, 0x4EE5, 0x4E0A] \<comment> \<open>50% or more\<close>
      else if v \<ge> 30 then [0x7D04, 0x33, 0x30, 0x2D, 0x35, 0x30, 0x25] \<comment> \<open>about 30-50%\<close>
      else if v \<ge> 10 then [0x31, 0x30, 0x25, 0x4EE5, 0x4E0A] \<comment> \<open>10% or more\<close>
      else [0x31, 0x30, 0x25, 0x672A, 0x6E80] \<comment> \<open>under 10%\<close>)"

definition is_fraction :: "jstring \<Rightarrow> bool" where
  "is_fraction frac =
     (case frac of [] \<Rightarrow> True | c # fs \<Rightarrow> c = 0x2E \<comment> \<open>.\<close> \<and> fs \<noteq> [] \<and> list_all is_digit fs)"

text \<open>
  The least amount, in units of ten thousand yen, that an output of the banding of an amount
  stands for: 10000 and 1000 for the two labels; an output that is no label is the amount
  itself, unchanged, and stands for its own value.
\<close>

definition band_floor :: "jstring \<Rightarrow> nat" where
  "band_floor out =
     (if out = [0x6570, 0x5104, 0x5186] \<comment> \<open>several hundred million yen\<close> then 10000
      else if out = [0x6570, 0x5343, 0x4E07, 0x5186] \<comment> \<open>several tens of millions of yen\<close> then 1000
      else parseInt out)"

text \<open>The text that was scanned, read back from the pieces.\<close>

fun source :: "piece list \<Rightarrow> jstring" where
  "source [] = []"
| "source (Keep c # ps) = c # source ps"
| "source (Hit m # ps) = m @ source ps"

text \<open>The value looked up for a category is a string.\<close>

fun is_label :: "looked_up \<Rightarrow> bool" where
  "is_label (Label l) = True"
| "is_label (Inherited b) = False"
| "is_label ObjectPrototype = False"

text \<open>The number of matches of a global pattern in a text.\<close>

definition match_count :: "regex \<Rightarrow> jstring \<Rightarrow> nat" where
  "match_count r s = length (hits (scan r s))"

text \<open>
  The count that an entry \<^verbatim>\<open><ruleKey>: <n>\<close> followed by the counter word of the report
  carries: the decimal number after the colon and the blank.
\<close>

definition entry_count :: "jstring \<Rightarrow> nat" where
  "entry_count e = parseInt (drop 2 (dropWhile (\<lambda>c. c \<noteq> 0x3A \<comment> \<open>:\<close>) e))"

text \<open>
  The label for a year that lies \<open>d\<close> years back: own words for 0, 1 and 2, one word beyond
  5, and the printed difference before "years ago" otherwise, that is, for 3 to 5 and for
  every negative difference (a year after the current one).
\<close>

definition relative_label :: "int \<Rightarrow> jstring" where
  "relative_label d =
     (if d = 0 then [0x4ECA, 0x5E74] \<comment> \<open>this year\<close>
      else if d = 1 then [0x6628, 0x5E74] \<comment> \<open>last year\<close>
      else if d = 2 then [0x4E00, 0x6628, 0x5E74] \<comment> \<open>the year before last\<close>
      else if d > 5 then [0x6570, 0x5E74, 0x524D] \<comment> \<open>several years ago\<close>
      else show_int d @ [0x5E74, 0x524D] \<comment> \<open>years ago\<close>)"

definition digits12 :: "jstring \<Rightarrow> bool" where
  "digits12 ds = ((length ds = 1 \<or> length ds = 2) \<and> list_all is_digit ds)"





text \<open>
  The labels that the stages after the redaction of the records write whatever the text is:
  those of the seven rules, of the two bands of amounts, of the five bands of percentages and
  the four words for years.  The labels that the redaction of a list of records writes: the
  label of the category of every record that is confidential and not public.
\<close>

definition fixed_labels :: "jstring list" where
  "fixed_labels =
     [[0x67D0, 0x5927, 0x624B, 0x4F01, 0x696D] \<comment> \<open>a certain major company\<close>, [0x62C5, 0x5F53, 0x8005] \<comment> \<open>the person in charge\<close>, [0x63, 0x6F, 0x6E, 0x74, 0x61, 0x63, 0x74, 0x40, 0x65, 0x78, 0x61, 0x6D, 0x70, 0x6C, 0x65, 0x2E, 0x63, 0x6F, 0x6D] \<comment> \<open>contact@example.com\<close>, [0x30, 0x58, 0x58, 0x2D, 0x58, 0x58, 0x58, 0x58, 0x2D, 0x58, 0x58, 0x58, 0x58] \<comment> \<open>0XX-XXXX-XXXX\<close>,
      [0x6570, 0x5341, 0x5104, 0x5186, 0x898F, 0x6A21, 0x306E, 0x58F2, 0x4E0A] \<comment> \<open>sales on the scale of billions of yen\<close>, [0x6570, 0x5343, 0x4E07, 0x5186, 0x898F, 0x6A21, 0x306E, 0x58F2, 0x4E0A] \<comment> \<open>sales on the scale of tens of millions of yen\<close>, [0x696D, 0x754C, 0x30C8, 0x30C3, 0x30D7, 0x30AF, 0x30E9, 0x30B9, 0x306E, 0x30B7, 0x30A7, 0x30A2] \<comment> \<open>a top-class share of the industry\<close>,
      [0x524D, 0x5E74, 0x6BD4, 0x5927, 0x5E45, 0x5897] \<comment> \<open>a large increase over the previous year\<close>, [0x975E, 0x516C, 0x958B] \<comment> \<open>undisclosed\<close>, [0x672C, 0x793E, 0x6240, 0x5728, 0x5730] \<comment> \<open>head office location\<close>,
      [0x300C, 0x72EC, 0x81EA, 0x958B, 0x767A, 0x30B7, 0x30B9, 0x30C6, 0x30E0, 0x300D] \<comment> \<open>in corner brackets: system of own development\<close>, [0x300C, 0x81EA, 0x793E, 0x30B5, 0x30FC, 0x30D3, 0x30B9, 0x300D] \<comment> \<open>in corner brackets: own service\<close>, [0x300C, 0x81EA, 0x793E, 0x88FD, 0x54C1, 0x300D] \<comment> \<open>in corner brackets: own product\<close>,
      [0x6570, 0x5104, 0x5186] \<comment> \<open>several hundred million yen\<close>, [0x6570, 0x5343, 0x4E07, 0x5186] \<comment> \<open>several tens of millions of yen\<close>,
      [0x38, 0x30, 0x25, 0x4EE5, 0x4E0A] \<comment> \<open>80% or more\<close>, [0x35, 0x30, 0x25, 0x4EE5, 0x4E0A] \<comment> \<open>50% or more\<close>, [0x7D04, 0x33, 0x30, 0x2D, 0x35, 0x30, 0x25] \<comment> \<open>about 30-50%\<close>, [0x31, 0x30, 0x25, 0x4EE5, 0x4E0A] \<comment> \<open>10% or more\<close>, [0x31, 0x30, 0x25, 0x672A, 0x6E80] \<comment> \<open>under 10%\<close>,
      [0x4ECA, 0x5E74] \<comment> \<open>this year\<close>, [0x6628, 0x5E74] \<comment> \<open>last year\<close>, [0x4E00, 0x6628, 0x5E74] \<comment> \<open>the year before last\<close>, [0x6570, 0x5E74, 0x524D] \<comment> \<open>several years ago\<close>]"



text \<open>
  The pipeline with its writes marked.  A marked text pairs every code unit with a flag: the
  flag is set for a code unit that a stage wrote, that is, for the text that a replacement
  put in the place of a match (also when that text repeats the match or a part of it), and
  it is not set for a code unit kept from the content.  \<open>retag\<close> renders the pieces of a scan
  over a marked text: a kept code unit keeps its flag, the replacement of a match is flagged.
  A stage is a pattern with the function that gives the replacement of a match; the stages of
  \<^verbatim>\<open>anonymize\<close> are, in this order, the redaction of each record that is confidential and
  not public and has a string label, the seven rules, the two bandings of numbers and the two
  steps for dates.  A record whose category looks up to something else than a string has no
  stage: with such a record \<^verbatim>\<open>anonymize\<close> is not a sequence of replacements by texts, and
  the statements about the marked pipeline assume that there is none.
\<close>

type_synonym marked = "(nat \<times> bool) list"

type_synonym stage = "regex \<times> (jstring \<Rightarrow> jstring)"

fun retag :: "(jstring \<Rightarrow> jstring) \<Rightarrow> piece list \<Rightarrow> marked \<Rightarrow> marked" where
  "retag f [] ts = []"
| "retag f (Keep c # ps) ts = take 1 ts @ retag f ps (drop 1 ts)"
| "retag f (Hit m # ps) ts = map (\<lambda>c. (c, True)) (f m) @ retag f ps (drop (length m) ts)"

definition apply_stage :: "stage \<Rightarrow> jstring \<Rightarrow> jstring" where
  "apply_stage st s = replace (fst st) (snd st) s"

definition apply_stage_marked :: "stage \<Rightarrow> marked \<Rightarrow> marked" where
  "apply_stage_marked st ts = retag (snd st) (scan (fst st) (map fst ts)) ts"

fun record_stages :: "info list \<Rightarrow> stage list" where
  "record_stages [] = []"
| "record_stages (j # js) =
     (if isConfidential j \<and> \<not> isPublic j then
        (case getGenericReplacement (category j) of
           Label l \<Rightarrow> (Lit (title j), \<lambda>_. l) # record_stages js
         | Inherited b \<Rightarrow> record_stages js
         | ObjectPrototype \<Rightarrow> record_stages js)
      else record_stages js)"

definition rule_stage :: "rule \<Rightarrow> stage" where
  "rule_stage r = (pattern r, case replacement r of Literal l \<Rightarrow> (\<lambda>_. l) | Transform f \<Rightarrow> f)"

definition stages :: "int \<Rightarrow> info list \<Rightarrow> stage list" where
  "stages currentYear companyInfo =
     record_stages companyInfo @ map rule_stage anonymizationRules
     @ [(money_pattern, money_band), (percent_pattern, percent_band),
        (full_date_pattern, truncate_date),
        (year_pattern, \<lambda>m. projr (relative_year currentYear m))]"

definition anonymize_marked :: "int \<Rightarrow> jstring \<Rightarrow> info list \<Rightarrow> marked" where
  "anonymize_marked currentYear content companyInfo =
     fold apply_stage_marked (stages currentYear companyInfo) (map (\<lambda>c. (c, False)) content)"

text \<open>
  \<open>covered r ts\<close>: at every position of the marked text, every way in which \<open>r\<close> matches
  there takes in at least one written code unit.  \<open>consumes r\<close>: by its shape, \<open>r\<close> does not
  match the empty text.
\<close>

fun covered :: "regex \<Rightarrow> marked \<Rightarrow> bool" where
  "covered r [] = (matches r [] = [])"
| "covered r (c # cs) =
     (list_all (\<lambda>t. list_ex snd (take (length (c # cs) - length t) (c # cs)))
        (matches r (map fst (c # cs)))
      \<and> covered r cs)"

fun consumes :: "regex \<Rightarrow> bool" where
  "consumes Eps = False"
| "consumes (Chr c) = True"
| "consumes (Cls neg rs) = True"
| "consumes (Seq a b) = (consumes a \<or> consumes b)"
| "consumes (Alt a b) = (consumes a \<and> consumes b)"
| "consumes (Star a) = False"
| "consumes (LazyStar a) = False"

section \<open>Evaluation\<close>

text \<open>
  Closed terms are evaluated by rewriting with the defining equations.  The equations of
  the two stars and of \<open>scan\<close> are not simplification rules by default, since they would
  unfold without end on an open term; the collections below add them for closed terms.
\<close>

lemma Exactly_numeral [simp]: "Exactly (numeral k) r = Seq r (Exactly (pred_numeral k) r)"
  by (simp add: numeral_eq_Suc)

lemma UpTo_numeral [simp]: "UpTo (numeral k) r = Opt (Seq r (UpTo (pred_numeral k) r))"
  by (simp add: numeral_eq_Suc)

lemma AtLeast_numeral [simp]: "AtLeast (numeral k) r = Seq r (AtLeast (pred_numeral k) r)"
  by (simp add: numeral_eq_Suc)

lemmas star_simps = matches.simps(6,7)

lemmas class_defs = digit_def word_def space_def kanji_def kana_kanji_def singles_def
  D_def Dot_def

lemmas form_defs = Plus_def Opt_def Between_def

lemmas engine = star_simps scan.simps replace_def replace_e_def match_all_def test_def
  class_defs form_defs

lemmas rule_defs = anonymizationRules_def apply_rule_def
  companyName_pattern_def personName_pattern_def email_pattern_def phone_pattern_def
  specificNumbers_pattern_def grouped_number_def oku_or_man_def decimal_percent_def
  specificNumbers_replacement_def address_pattern_def productName_pattern_def
  productName_replacement_def

lemmas num_defs = obscureNumbers_def money_pattern_def money_band_def percent_pattern_def
  percent_band_def parseInt_def is_digit_def

lemmas date_defs = generalizeDates_def full_date_pattern_def year_month_pattern_def
  year_pattern_def four_digits_def truncate_date_def relative_year_def
  parseInt_def is_digit_def show_int_def

section \<open>Properties of the matcher\<close>

lemma matches_suffix: "t \<in> set (matches r s) \<Longrightarrow> \<exists>m. s = m @ t"
proof (induction r s arbitrary: t rule: matches.induct)
  case (4 a b s)
  from "4.prems" obtain u where u: "u \<in> set (matches a s)" "t \<in> set (matches b u)" by auto
  from "4.IH"(1)[OF u(1)] obtain m1 where "s = m1 @ u" by blast
  moreover from "4.IH"(2)[OF u] obtain m2 where "u = m2 @ t" by blast
  ultimately show ?case by simp
next
  case (6 a s)
  show ?case
  proof (cases "t = s")
    case True then show ?thesis by simp
  next
    case False
    with "6.prems" obtain u where u: "u \<in> set (matches a s)" "length u < length s"
      "t \<in> set (matches (Star a) u)" by (subst (asm) star_simps) auto
    from "6.IH"(1)[OF u(1)] obtain m1 where "s = m1 @ u" by blast
    moreover from "6.IH"(2)[of u t] u obtain m2 where "u = m2 @ t" by auto
    ultimately show ?thesis by simp
  qed
next
  case (7 a s)
  show ?case
  proof (cases "t = s")
    case True then show ?thesis by simp
  next
    case False
    with "7.prems" obtain u where u: "u \<in> set (matches a s)" "length u < length s"
      "t \<in> set (matches (LazyStar a) u)" by (subst (asm) star_simps) auto
    from "7.IH"(1)[OF u(1)] obtain m1 where "s = m1 @ u" by blast
    moreover from "7.IH"(2)[of u t] u obtain m2 where "u = m2 @ t" by auto
    ultimately show ?thesis by simp
  qed
next
  case (1 s) then show ?case by simp
next
  case (2 c s) then show ?case by (cases s) (auto split: if_splits)
next
  case (3 neg rs s) then show ?case by (cases s) (auto split: if_splits)
next
  case (5 a b s) then show ?case by auto
qed

lemma matches_length: "t \<in> set (matches r s) \<Longrightarrow> length t \<le> length s"
  using matches_suffix by fastforce

lemma needs_matches: "needs c r \<Longrightarrow> t \<in> set (matches r s) \<Longrightarrow> \<exists>m. s = m @ t \<and> c \<in> set m"
proof (induction r s arbitrary: t rule: matches.induct)
  case (4 a b s)
  from "4.prems" obtain u where u: "u \<in> set (matches a s)" "t \<in> set (matches b u)" by auto
  from matches_suffix[OF u(1)] obtain m1 where m1: "s = m1 @ u" by blast
  from matches_suffix[OF u(2)] obtain m2 where m2: "u = m2 @ t" by blast
  from "4.prems"(1) have "needs c a \<or> needs c b" by simp
  then show ?case
  proof
    assume "needs c a"
    from "4.IH"(1)[OF this u(1)] obtain m where "s = m @ u" "c \<in> set m" by blast
    with m2 show ?thesis by auto
  next
    assume "needs c b"
    from "4.IH"(2)[OF u(1) this u(2)] obtain m where "u = m @ t" "c \<in> set m" by blast
    with m1 show ?thesis by auto
  qed
next
  case (5 a b s)
  then show ?case by auto
next
  case (2 d s) then show ?case by (cases s) (auto split: if_splits)
qed simp_all

lemma needs_no_match: "needs c r \<Longrightarrow> c \<notin> set s \<Longrightarrow> matches r s = []"
proof (rule ccontr)
  assume n: "needs c r" and c: "c \<notin> set s" and "matches r s \<noteq> []"
  then obtain t where "t \<in> set (matches r s)" by (cases "matches r s") auto
  from needs_matches[OF n this] c show False by auto
qed

lemma needs_scan: "needs c r \<Longrightarrow> c \<notin> set s \<Longrightarrow> scan r s = map Keep s"
proof (induction s)
  case Nil
  then show ?case by (subst scan.simps) (simp add: needs_no_match)
next
  case (Cons x xs)
  then show ?case by (subst scan.simps) (simp add: needs_no_match)
qed

lemma render_Keep: "render f (map Keep s) = s"
  by (induction s) auto

lemma needs_replace: "needs c r \<Longrightarrow> c \<notin> set s \<Longrightarrow> replace r f s = s"
  by (simp add: replace_def needs_scan render_Keep)

lemma star_digits:
  "\<forall>c \<in> set ds. is_digit c \<Longrightarrow> rest = [] \<or> \<not> is_digit (hd rest) \<Longrightarrow>
   \<exists>ys. matches (Star D) (ds @ rest) = rest # ys"
proof (induction ds)
  case Nil
  then have "matches D rest = []"
    by (cases rest) (auto simp: D_def digit_def is_digit_def)
  then show ?case by (simp add: star_simps)
next
  case (Cons d ds)
  then obtain ys where ys: "matches (Star D) (ds @ rest) = rest # ys" by auto
  from Cons.prems have "matches D (d # ds @ rest) = [ds @ rest]"
    by (auto simp: D_def digit_def is_digit_def)
  then show ?case using ys by (simp add: star_simps)
qed

lemma scan_whole:
  "matches r s = [] # ys \<Longrightarrow> s \<noteq> [] \<Longrightarrow> matches r [] = [] \<Longrightarrow> scan r s = [Hit s]"
  by (subst scan.simps, simp, subst scan.simps, simp)

section \<open>Banding of percentages\<close>

lemma takeWhile_digits:
  "\<forall>c \<in> set ds. is_digit c \<Longrightarrow> rest = [] \<or> \<not> is_digit (hd rest) \<Longrightarrow>
   takeWhile is_digit (ds @ rest) = ds"
  by (induction ds) (cases rest; auto)+

lemma percent_token_match:
  assumes len: "length ds = 2 \<or> length ds = 3" and dig: "\<forall>c \<in> set ds. is_digit c"
    and fr: "is_fraction frac"
  shows "\<exists>ys. matches percent_pattern (ds @ frac @ [0x25]) = [] # ys"
proof (cases frac)
  case Nil
  from len show ?thesis
  proof
    assume "length ds = 2"
    then obtain a b where ds: "ds = [a, b]" by (auto simp: length_Suc_conv numeral_2_eq_2)
    with dig have "48 \<le> a" "a \<le> 57" "48 \<le> b" "b \<le> 57" by (auto simp: is_digit_def)
    then show ?thesis using Nil ds
      by (simp add: percent_pattern_def class_defs form_defs)
  next
    assume "length ds = 3"
    then obtain a b c where ds: "ds = [a, b, c]" by (auto simp: length_Suc_conv numeral_3_eq_3)
    with dig have "48 \<le> a" "a \<le> 57" "48 \<le> b" "b \<le> 57" "48 \<le> c" "c \<le> 57" by (auto simp: is_digit_def)
    then show ?thesis using Nil ds
      by (simp add: percent_pattern_def class_defs form_defs)
  qed
next
  case (Cons p fs0)
  with fr obtain f fs where frac: "frac = 0x2E # f # fs" and f: "is_digit f"
    and fs: "\<forall>c \<in> set fs. is_digit c"
    by (cases fs0) (auto simp: is_fraction_def list_all_iff)
  from star_digits[OF fs, of "[0x25]"] obtain ys where
    ys: "matches (Star D) (fs @ [0x25]) = [0x25] # ys" by (auto simp: is_digit_def)
  from f have f': "48 \<le> f" "f \<le> 57" by (auto simp: is_digit_def)
  from len show ?thesis
  proof
    assume "length ds = 2"
    then obtain a b where ds: "ds = [a, b]" by (auto simp: length_Suc_conv numeral_2_eq_2)
    with dig have "48 \<le> a" "a \<le> 57" "48 \<le> b" "b \<le> 57" by (auto simp: is_digit_def)
    then show ?thesis using frac ds f' ys[unfolded D_def digit_def]
      by (simp add: percent_pattern_def class_defs form_defs)
  next
    assume "length ds = 3"
    then obtain a b c where ds: "ds = [a, b, c]" by (auto simp: length_Suc_conv numeral_3_eq_3)
    with dig have "48 \<le> a" "a \<le> 57" "48 \<le> b" "b \<le> 57" "48 \<le> c" "c \<le> 57" by (auto simp: is_digit_def)
    then show ?thesis using frac ds f' ys[unfolded D_def digit_def]
      by (simp add: percent_pattern_def class_defs form_defs)
  qed
qed

lemma percent_token:
  assumes len: "length ds = 2 \<or> length ds = 3" and dig: "\<forall>c \<in> set ds. is_digit c"
    and fr: "is_fraction frac"
  shows "obscureNumbers (ds @ frac @ [0x25]) = five_ranges (parseInt ds)"
proof -
  let ?tok = "ds @ frac @ [0x25]"
  have nd: "frac @ [0x25] = [] \<or> \<not> is_digit (hd (frac @ [0x25]))"
    using fr by (cases frac) (auto simp: is_fraction_def is_digit_def)
  have "0x4E07 \<notin> set ?tok"
    using dig fr by (cases frac) (auto simp: is_fraction_def is_digit_def list_all_iff)
  moreover have "needs 0x4E07 money_pattern"
    by (simp add: money_pattern_def)
  ultimately have m: "replace money_pattern money_band ?tok = ?tok"
    by (rule needs_replace[rotated])
  from percent_token_match[OF assms] obtain ys where
    "matches percent_pattern ?tok = [] # ys" by blast
  moreover have "matches percent_pattern [] = []"
    by (simp add: percent_pattern_def class_defs form_defs)
  ultimately have "scan percent_pattern ?tok = [Hit ?tok]"
    using len by (intro scan_whole) auto
  then have "obscureNumbers ?tok = percent_band ?tok"
    by (simp add: obscureNumbers_def m) (simp add: replace_def)
  also have "\<dots> = five_ranges (parseInt ds)"
    using takeWhile_digits[OF dig nd] takeWhile_digits[OF dig, of "[]"]
    by (simp add: percent_band_def five_ranges_def parseInt_def Let_def)
  finally show ?thesis .
qed

text \<open>
  C3 fails on the code.  A percentage with a single digit before the sign or before the point
  is not banded: the token 5% stays as it is, and in 5.25% only the digits after the point
  are taken for a number, so that the text becomes 5.10% followed by the suffix "or more".
\<close>

theorem obscureNumbers_single_digit:
  "obscureNumbers [0x35, 0x25] \<comment> \<open>5%\<close> = [0x35, 0x25] \<comment> \<open>5%\<close> \<and> obscureNumbers [0x35, 0x2E, 0x32, 0x35, 0x25] \<comment> \<open>5.25%\<close> = [0x35, 0x2E, 0x31, 0x30, 0x25, 0x4EE5, 0x4E0A] \<comment> \<open>5.10% or more\<close>"
  by (simp add: num_defs engine)

section \<open>Dates\<close>

lemma digits12_cases:
  assumes "digits12 ds"
  obtains x where "ds = [x]" "48 \<le> x" "x \<le> 57"
  | x y where "ds = [x, y]" "48 \<le> x" "x \<le> 57" "48 \<le> y" "y \<le> 57"
proof -
  from assms have l: "length ds = 1 \<or> length ds = 2" and d: "\<forall>c \<in> set ds. is_digit c"
    by (simp_all add: digits12_def list_all_iff)
  from l show ?thesis
  proof
    assume "length ds = 1"
    then obtain x where "ds = [x]" by (cases ds) auto
    with d that(1) show ?thesis by (auto simp: is_digit_def)
  next
    assume "length ds = 2"
    then obtain x y where "ds = [x, y]" by (auto simp: length_Suc_conv numeral_2_eq_2)
    with d that(2) show ?thesis by (auto simp: is_digit_def)
  qed
qed

lemma year_token_scan:
  assumes "is_digit a" "is_digit b"
  shows "scan year_pattern ([0x32, 0x30, a, b, 0x5E74] @ rest)
       = Hit [0x32, 0x30, a, b, 0x5E74] # scan year_pattern rest"
proof -
  from assms have "48 \<le> a" "a \<le> 57" "48 \<le> b" "b \<le> 57" by (auto simp: is_digit_def)
  then have "matches year_pattern ([0x32, 0x30, a, b, 0x5E74] @ rest) = [rest]"
    by (simp add: year_pattern_def class_defs)
  then show ?thesis by (subst scan.simps) simp
qed

lemma relative_year_token:
  assumes "is_digit a" "is_digit b"
  shows "relative_year currentYear [0x32, 0x30, a, b, 0x5E74]
       = Inr (relative_label (currentYear - int (parseInt [0x32, 0x30, a, b])))"
proof -
  from assms have ab: "48 \<le> a" "a \<le> 57" "48 \<le> b" "b \<le> 57" by (auto simp: is_digit_def)
  then have f: "search four_digits [0x32, 0x30, a, b, 0x5E74] = Some [0x32, 0x30, a, b]"
    by (simp add: four_digits_def class_defs)
  define d where "d = currentYear - int (parseInt [0x32, 0x30, a, b])"
  have "relative_year currentYear [0x32, 0x30, a, b, 0x5E74]
      = Inr (if d = 0 then [0x4ECA, 0x5E74] else if d = 1 then [0x6628, 0x5E74] else if d = 2 then [0x4E00, 0x6628, 0x5E74]
             else if d \<le> 5 then show_int d @ [0x5E74, 0x524D] else [0x6570, 0x5E74, 0x524D])"
    unfolding relative_year_def f d_def by (simp add: Let_def del: search.simps)
  also have "\<dots> = Inr (relative_label d)"
    by (simp add: relative_label_def)
  finally show ?thesis by (simp add: d_def)
qed

lemma generalizeDates_year:
  assumes "is_digit a" "is_digit b"
  shows "generalizeDates currentYear [0x32, 0x30, a, b, 0x5E74]
       = Inr (relative_label (currentYear - int (parseInt [0x32, 0x30, a, b])))"
proof -
  let ?tok = "[0x32, 0x30, a, b, 0x5E74]"
  from assms have "0x6708 \<notin> set ?tok" by (auto simp: is_digit_def)
  moreover have "needs 0x6708 full_date_pattern" by (simp add: full_date_pattern_def form_defs)
  ultimately have 1: "replace full_date_pattern truncate_date ?tok = ?tok"
    by (rule needs_replace[rotated])
  have "matches year_pattern [] = []" by (simp add: year_pattern_def)
  then have "scan year_pattern [] = []" by (subst scan.simps) simp
  with year_token_scan[OF assms(1,2), of "[]"] have "scan year_pattern ?tok = [Hit ?tok]" by simp
  with relative_year_token[OF assms, of currentYear] 1 show ?thesis
    by (simp add: generalizeDates_def replace_e_def)
qed

lemma full_date_token_match:
  assumes "is_digit a" "is_digit b" "digits12 ms" "digits12 ds"
  shows "\<exists>ys. matches full_date_pattern
            ([0x32, 0x30, a, b, 0x5E74] @ ms @ [0x6708] @ ds @ [0x65E5]) = [] # ys"
proof -
  from assms have ab: "48 \<le> a" "a \<le> 57" "48 \<le> b" "b \<le> 57" by (auto simp: is_digit_def)
  from assms(3) show ?thesis
  proof (cases rule: digits12_cases)
    case (1 x)
    from assms(4) show ?thesis
    proof (cases rule: digits12_cases)
      case (1 u)
      with \<open>ds = [u]\<close> \<open>ms = [x]\<close> ab \<open>48 \<le> x\<close> \<open>x \<le> 57\<close> show ?thesis
        by (simp add: full_date_pattern_def class_defs form_defs)
    next
      case (2 u v)
      with \<open>ms = [x]\<close> ab \<open>48 \<le> x\<close> \<open>x \<le> 57\<close> show ?thesis
        by (simp add: full_date_pattern_def class_defs form_defs)
    qed
  next
    case (2 x y)
    from assms(4) show ?thesis
    proof (cases rule: digits12_cases)
      case (1 u)
      with 2 ab show ?thesis
        by (simp add: full_date_pattern_def class_defs form_defs)
    next
      case u: (2 u v)
      with 2 ab show ?thesis
        by (simp add: full_date_pattern_def class_defs form_defs)
    qed
  qed
qed

lemma truncate_full_date:
  assumes "is_digit a" "is_digit b" "digits12 ms"
  shows "truncate_date ([0x32, 0x30, a, b, 0x5E74] @ ms @ [0x6708] @ rest)
       = [0x32, 0x30, a, b, 0x5E74] @ ms @ [0x6708]"
proof -
  from assms have ab: "48 \<le> a" "a \<le> 57" "48 \<le> b" "b \<le> 57" by (auto simp: is_digit_def)
  from assms(3) show ?thesis
  proof (cases rule: digits12_cases)
    case (1 x)
    with ab show ?thesis
      by (simp add: truncate_date_def year_month_pattern_def class_defs form_defs)
  next
    case (2 x y)
    with ab show ?thesis
      by (simp add: truncate_date_def year_month_pattern_def class_defs form_defs)
  qed
qed

lemma render_e_Keep: "render_e f (map Keep s) = Inr s"
  by (induction s) auto

lemma generalizeDates_full_date:
  assumes "is_digit a" "is_digit b" "digits12 ms" "digits12 ds"
  shows "generalizeDates currentYear ([0x32, 0x30, a, b, 0x5E74] @ ms @ [0x6708] @ ds @ [0x65E5])
       = Inr (relative_label (currentYear - int (parseInt [0x32, 0x30, a, b])) @ ms @ [0x6708])"
proof -
  let ?y = "[0x32, 0x30, a, b, 0x5E74]"
  let ?tok = "?y @ ms @ [0x6708] @ ds @ [0x65E5]"
  from full_date_token_match[OF assms(1-4)] obtain ys where
    "matches full_date_pattern ?tok = [] # ys" by blast
  moreover have "matches full_date_pattern [] = []"
    by (simp add: full_date_pattern_def)
  ultimately have "scan full_date_pattern ?tok = [Hit ?tok]"
    by (intro scan_whole) auto
  then have 1: "replace full_date_pattern truncate_date ?tok = ?y @ ms @ [0x6708]"
    using truncate_full_date[OF assms(1-3), of "ds @ [0x65E5]"] by (simp add: replace_def)
  from assms(3) have "0x5E74 \<notin> set (ms @ [0x6708])"
    by (auto simp: digits12_def list_all_iff is_digit_def)
  moreover have "needs 0x5E74 year_pattern" by (simp add: year_pattern_def)
  ultimately have "scan year_pattern (ms @ [0x6708]) = map Keep (ms @ [0x6708])"
    by (rule needs_scan[rotated])
  with year_token_scan[OF assms(1,2), of "ms @ [0x6708]"]
  have sc: "scan year_pattern (?y @ ms @ [0x6708]) = Hit ?y # map Keep (ms @ [0x6708])"
    by (simp only:)
  have "render_e (relative_year currentYear) (Hit ?y # map Keep (ms @ [0x6708]))
      = Inr (relative_label (currentYear - int (parseInt [0x32, 0x30, a, b])) @ ms @ [0x6708])"
    by (simp only: render_e.simps relative_year_token[OF assms(1,2)] render_e_Keep sum.case)
  with sc have "replace_e year_pattern (relative_year currentYear) (?y @ ms @ [0x6708])
      = Inr (relative_label (currentYear - int (parseInt [0x32, 0x30, a, b])) @ ms @ [0x6708])"
    by (simp only: replace_e_def)
  with 1 show ?thesis by (simp add: generalizeDates_def)
qed

text \<open>
  C4 (as amended).  \<^verbatim>\<open>generalizeDates\<close> turns a bare year token 20YY into the label of the
  difference between the current year and that year: the word for this year for 0, for last
  year for 1, for the year before last for 2, "several years ago" above 5, and otherwise (for
  3, 4 and 5, and for a year after the current one) the printed difference with "years ago".
  A full date with one or two digits for month and day loses its day, and the year of what
  remains is replaced in the same way: the result is the label followed by the month.
\<close>

theorem generalizeDates_relative:
  "(\<forall>currentYear a b. is_digit a \<and> is_digit b
      \<longrightarrow> generalizeDates currentYear [0x32 \<comment> \<open>2\<close>, 0x30 \<comment> \<open>0\<close>, a, b, 0x5E74 \<comment> \<open>year\<close>]
          = Inr (relative_label (currentYear - int (parseInt [0x32 \<comment> \<open>2\<close>, 0x30 \<comment> \<open>0\<close>, a, b]))))
   \<and> (\<forall>currentYear a b ms ds. is_digit a \<and> is_digit b \<and> digits12 ms \<and> digits12 ds
      \<longrightarrow> generalizeDates currentYear ([0x32 \<comment> \<open>2\<close>, 0x30 \<comment> \<open>0\<close>, a, b, 0x5E74 \<comment> \<open>year\<close>] @ ms @ [0x6708 \<comment> \<open>month\<close>] @ ds @ [0x65E5 \<comment> \<open>day\<close>])
          = Inr (relative_label (currentYear - int (parseInt [0x32 \<comment> \<open>2\<close>, 0x30 \<comment> \<open>0\<close>, a, b])) @ ms @ [0x6708 \<comment> \<open>month\<close>]))"
  using generalizeDates_year generalizeDates_full_date by blast

theorem generalizeDates_relative_witness:
  "is_digit 0x32 \<comment> \<open>2\<close> \<and> is_digit 0x33 \<comment> \<open>3\<close> \<and> is_digit 0x34 \<comment> \<open>4\<close> \<and> is_digit 0x35 \<comment> \<open>5\<close> \<and> is_digit 0x36 \<comment> \<open>6\<close>
   \<and> is_digit 0x31 \<comment> \<open>1\<close> \<and> is_digit 0x39 \<comment> \<open>9\<close>
   \<and> digits12 [0x33] \<comment> \<open>3\<close> \<and> digits12 [0x31, 0x35] \<comment> \<open>15\<close>
   \<and> generalizeDates 2025 [0x32, 0x30, 0x32, 0x34, 0x5E74, 0x33, 0x6708, 0x31, 0x35, 0x65E5] \<comment> \<open>year 2024, month 3, day 15\<close> = Inr [0x6628, 0x5E74, 0x33, 0x6708] \<comment> \<open>last year, month 3\<close>
   \<and> generalizeDates 2025 [0x32, 0x30, 0x32, 0x33, 0x5E74] \<comment> \<open>year 2023\<close> = Inr [0x4E00, 0x6628, 0x5E74] \<comment> \<open>the year before last\<close>
   \<and> generalizeDates 2025 [0x32, 0x30, 0x32, 0x35, 0x5E74] \<comment> \<open>year 2025\<close> = Inr [0x4ECA, 0x5E74] \<comment> \<open>this year\<close>
   \<and> generalizeDates 2025 [0x32, 0x30, 0x32, 0x32, 0x5E74] \<comment> \<open>year 2022\<close> = Inr [0x33, 0x5E74, 0x524D] \<comment> \<open>3 years ago\<close>
   \<and> generalizeDates 2025 [0x32, 0x30, 0x31, 0x39, 0x5E74] \<comment> \<open>year 2019\<close> = Inr [0x6570, 0x5E74, 0x524D] \<comment> \<open>several years ago\<close>
   \<and> generalizeDates 2025 [0x32, 0x30, 0x32, 0x36, 0x5E74] \<comment> \<open>year 2026\<close> = Inr [0x2D, 0x31, 0x5E74, 0x524D] \<comment> \<open>minus 1, years ago\<close>"
  using generalizeDates_relative [THEN conjunct2, rule_format, of "0x32" "0x34" "[0x33]" "[0x31, 0x35]" 2025]
    generalizeDates_relative [THEN conjunct1, rule_format, of "0x32" "0x33" 2025]
    generalizeDates_relative [THEN conjunct1, rule_format, of "0x32" "0x35" 2025]
    generalizeDates_relative [THEN conjunct1, rule_format, of "0x32" "0x32" 2025]
    generalizeDates_relative [THEN conjunct1, rule_format, of "0x31" "0x39" 2025]
    generalizeDates_relative [THEN conjunct1, rule_format, of "0x32" "0x36" 2025]
  by (simp add: is_digit_def digits12_def parseInt_def relative_label_def show_int_def
      show_nat.simps)

text \<open>
  C4 (as stated) fails twice: the full date does not come out with its year, and the bare
  year 2023 does not become "2 years ago".
\<close>

theorem generalizeDates_keeps_no_year:
  "generalizeDates 2025 [0x32, 0x30, 0x32, 0x34, 0x5E74, 0x33, 0x6708, 0x31, 0x35, 0x65E5] \<comment> \<open>year 2024, month 3, day 15\<close> \<noteq> Inr [0x32, 0x30, 0x32, 0x34, 0x5E74, 0x33, 0x6708] \<comment> \<open>year 2024, month 3\<close>
   \<and> generalizeDates 2025 [0x32, 0x30, 0x32, 0x33, 0x5E74] \<comment> \<open>year 2023\<close> \<noteq> Inr [0x32, 0x5E74, 0x524D] \<comment> \<open>2 years ago\<close>"
  by (simp add: date_defs engine)

section \<open>Banding of amounts\<close>

lemma money_token_match:
  assumes len: "4 \<le> length ds" and dig: "\<forall>c \<in> set ds. is_digit c"
  shows "\<exists>ys. matches money_pattern (ds @ [0x4E07, 0x5186]) = [] # ys"
proof -
  from len obtain a b c d ds' where ds: "ds = a # b # c # d # ds'"
    by (cases ds; simp) (rename_tac a l, case_tac l; simp; rename_tac b l, case_tac l; simp;
        rename_tac c l, case_tac l; simp)
  with dig have r: "48 \<le> a" "a \<le> 57" "48 \<le> b" "b \<le> 57" "48 \<le> c" "c \<le> 57"
    "48 \<le> d" "d \<le> 57" and ds': "\<forall>c \<in> set ds'. is_digit c"
    by (auto simp: is_digit_def)
  from star_digits[OF ds', of "[0x4E07, 0x5186]"] obtain ys where
    "matches (Star D) (ds' @ [0x4E07, 0x5186]) = [0x4E07, 0x5186] # ys" by (auto simp: is_digit_def)
  with r ds show ?thesis
    by (simp add: money_pattern_def class_defs form_defs)
qed

lemma money_token:
  assumes len: "4 \<le> length ds" and dig: "\<forall>c \<in> set ds. is_digit c"
  shows "obscureNumbers (ds @ [0x4E07, 0x5186]) =
     (if parseInt ds \<ge> 10000 then [0x6570, 0x5104, 0x5186]
      else if parseInt ds \<ge> 1000 then [0x6570, 0x5343, 0x4E07, 0x5186]
      else ds @ [0x4E07, 0x5186])"
proof -
  let ?tok = "ds @ [0x4E07, 0x5186]"
  from money_token_match[OF assms] obtain ys where
    "matches money_pattern ?tok = [] # ys" by blast
  moreover have "matches money_pattern [] = []"
    by (simp add: money_pattern_def class_defs form_defs)
  ultimately have "scan money_pattern ?tok = [Hit ?tok]"
    by (intro scan_whole) auto
  then have "replace money_pattern money_band ?tok = money_band ?tok"
    by (simp add: replace_def)
  moreover have "money_band ?tok =
     (if parseInt ds \<ge> 10000 then [0x6570, 0x5104, 0x5186]
      else if parseInt ds \<ge> 1000 then [0x6570, 0x5343, 0x4E07, 0x5186]
      else ?tok)" (is "_ = ?out")
  proof -
    have "takeWhile is_digit ?tok = ds"
      by (rule takeWhile_digits[OF dig]) (simp add: is_digit_def)
    then show ?thesis
      unfolding money_band_def Let_def by simp
  qed
  ultimately have m: "replace money_pattern money_band ?tok = ?out"
    by simp
  have "0x25 \<notin> set ?out"
    using dig by (auto simp: is_digit_def)
  moreover have "needs 0x25 percent_pattern"
    by (simp add: percent_pattern_def form_defs)
  ultimately have "replace percent_pattern percent_band ?out = ?out"
    by (rule needs_replace[rotated])
  with m show ?thesis by (simp add: obscureNumbers_def)
qed

lemma parseInt_token:
  assumes "\<forall>c \<in> set ds. is_digit c"
  shows "parseInt (ds @ [0x4E07, 0x5186]) = parseInt ds"
proof -
  have "takeWhile is_digit (ds @ [0x4E07, 0x5186]) = ds"
    by (rule takeWhile_digits[OF assms]) (simp add: is_digit_def)
  moreover have "takeWhile is_digit ds = ds"
    using assms by simp
  ultimately show ?thesis by (simp only: parseInt_def)
qed

text \<open>
  C6.  For two amounts written with four or more digits before the unit, the larger amount
  is never banded to an output that stands for less than the output of the smaller one:
  below 1000 the amount stays as it is, from 1000 on it becomes the label of the tens of
  millions, from 10000 on the label of the hundreds of millions.
\<close>

theorem money_banding_monotone:
  assumes "4 \<le> length ds1" "list_all is_digit ds1" "4 \<le> length ds2" "list_all is_digit ds2"
    and "parseInt ds1 < parseInt ds2"
  shows "band_floor (obscureNumbers (ds1 @ [0x4E07, 0x5186] \<comment> \<open>man yen, ten thousand yen\<close>)) \<le> band_floor (obscureNumbers (ds2 @ [0x4E07, 0x5186] \<comment> \<open>man yen, ten thousand yen\<close>))"
proof -
  from assms have d: "\<forall>c \<in> set ds1. is_digit c" "\<forall>c \<in> set ds2. is_digit c"
    by (simp_all add: list_all_iff)
  have f: "\<And>ds. 4 \<le> length ds \<Longrightarrow> \<forall>c \<in> set ds. is_digit c \<Longrightarrow>
     band_floor (obscureNumbers (ds @ [0x4E07, 0x5186])) =
       (if parseInt ds \<ge> 10000 then 10000 else if parseInt ds \<ge> 1000 then 1000 else parseInt ds)"
    by (auto simp: money_token band_floor_def parseInt_token)
  from assms d show ?thesis by (simp add: f)
qed

theorem money_banding_monotone_witness:
  "4 \<le> length [0x30, 0x39, 0x39, 0x39] \<comment> \<open>0999\<close> \<and> list_all is_digit [0x30, 0x39, 0x39, 0x39] \<comment> \<open>0999\<close> \<and> 4 \<le> length [0x31, 0x30, 0x30, 0x30, 0x30] \<comment> \<open>10000\<close>
   \<and> list_all is_digit [0x31, 0x30, 0x30, 0x30, 0x30] \<comment> \<open>10000\<close> \<and> parseInt [0x30, 0x39, 0x39, 0x39] \<comment> \<open>0999\<close> < parseInt [0x31, 0x30, 0x30, 0x30, 0x30] \<comment> \<open>10000\<close>
   \<and> band_floor (obscureNumbers [0x30, 0x39, 0x39, 0x39, 0x4E07, 0x5186] \<comment> \<open>0999 man yen\<close>) \<le> band_floor (obscureNumbers [0x31, 0x30, 0x30, 0x30, 0x30, 0x4E07, 0x5186] \<comment> \<open>10000 man yen\<close>)"
  using money_banding_monotone [of "[0x30, 0x39, 0x39, 0x39]" "[0x31, 0x30, 0x30, 0x30, 0x30]"]
  by (simp add: is_digit_def parseInt_def)

section \<open>Literal patterns and escaping\<close>

lemma starts_with_conv: "starts_with s t \<longleftrightarrow> (\<exists>r. s = t @ r)"
proof (induction s t rule: starts_with.induct)
qed auto

lemma str_includes_conv: "str_includes s t \<longleftrightarrow> (\<exists>p r. s = p @ t @ r)"
proof (induction s)
  case Nil
  then show ?case by (auto simp: starts_with_conv)
next
  case (Cons x xs)
  show ?case
  proof
    assume "str_includes (x # xs) t"
    then consider "starts_with (x # xs) t" | "str_includes xs t" by auto
    then show "\<exists>p r. x # xs = p @ t @ r"
    proof cases
      case 1
      then obtain r where "x # xs = t @ r" by (auto simp: starts_with_conv)
      then have "x # xs = [] @ t @ r" by simp
      then show ?thesis by blast
    next
      case 2
      with Cons obtain p r where "xs = p @ t @ r" by blast
      then have "x # xs = (x # p) @ t @ r" by simp
      then show ?thesis by blast
    qed
  next
    assume "\<exists>p r. x # xs = p @ t @ r"
    then obtain p r where e: "x # xs = p @ t @ r" by blast
    show "str_includes (x # xs) t"
    proof (cases p)
      case Nil
      with e have "starts_with (x # xs) t" by (auto simp: starts_with_conv)
      then show ?thesis by simp
    next
      case (Cons y p')
      with e have "xs = p' @ t @ r" by simp
      with Cons.IH have "str_includes xs t" by blast
      then show ?thesis by simp
    qed
  qed
qed


lemma scan_class:
  "scan (Cls neg rs) s = map (\<lambda>c. if in_ranges rs c \<noteq> neg then Hit [c] else Keep c) s"
proof (induction s)
  case Nil
  then show ?case by (subst scan.simps) simp
next
  case (Cons x xs)
  then show ?case by (subst scan.simps) simp
qed

lemma in_ranges_singles: "in_ranges (singles cs) c \<longleftrightarrow> c \<in> set cs"
  by (induction cs) (auto simp: singles_def)

lemma escapeRegex_eq:
  "escapeRegex str = concat (map (\<lambda>c. if c \<in> set syntax_chars then [0x5C, c] else [c]) str)"
proof -
  have "render (\<lambda>m. 0x5C # m) (map (\<lambda>c. if c \<in> set syntax_chars then Hit [c] else Keep c) s)
      = concat (map (\<lambda>c. if c \<in> set syntax_chars then [0x5C, c] else [c]) s)" for s
    by (induction s) auto
  then show ?thesis
    by (simp add: escapeRegex_def replace_def scan_class in_ranges_singles)
qed

lemma backslash_syntax: "0x5C \<in> set syntax_chars"
  by (simp add: syntax_chars_def)

lemma compile_plain:
  "c \<notin> set syntax_chars \<Longrightarrow>
   compile (c # s) = (case compile s of Inl e \<Rightarrow> Inl e | Inr l \<Rightarrow> Inr (c # l))"
  using backslash_syntax by (cases s) auto

lemma compile_escaped:
  "c \<in> set syntax_chars \<Longrightarrow>
   compile (0x5C # c # s) = (case compile s of Inl e \<Rightarrow> Inl e | Inr l \<Rightarrow> Inr (c # l))"
  by simp

lemma compile_escapeRegex: "compile (escapeRegex t) = Inr t"
  unfolding escapeRegex_eq
proof (induction t)
  case Nil
  then show ?case by simp
next
  case (Cons c t)
  then show ?case
    by (cases "c \<in> set syntax_chars") (simp_all add: compile_plain compile_escaped del: compile.simps)
qed

lemmas redact_defs = anonymize_def redact_info_def compile_escapeRegex getGenericReplacement_def
  replacements_def object_prototype_def

section \<open>What a replacement can and cannot create\<close>

lemma source_scan: "source (scan r s) = s"
proof (induction r s rule: scan.induct)
  case (1 r s)
  show ?case
  proof (cases "matches r s")
    case Nil
    then show ?thesis using 1(1) by (subst scan.simps) (auto split: list.splits)
  next
    case (Cons t ts)
    then have "t \<in> set (matches r s)" by simp
    from matches_suffix[OF this] obtain m where m: "s = m @ t" by blast
    show ?thesis
    proof (cases "length t < length s")
      case True
      with 1(2)[OF Cons True] Cons m show ?thesis by (subst scan.simps) simp
    next
      case False
      with 1(3)[OF Cons False] Cons show ?thesis by (subst scan.simps) (auto split: list.splits)
    qed
  qed
qed


text \<open>Every match that the scan reports is a match of the pattern at some position.\<close>

lemma hits_scan:
  "m \<in> set (hits (scan r s)) \<Longrightarrow> \<exists>s' t. t \<in> set (matches r s') \<and> s' = m @ t"
proof (induction r s rule: scan.induct)
  case (1 r s)
  show ?case
  proof (cases "matches r s")
    case Nil
    with "1.prems" 1(1) show ?thesis
      by (subst (asm) scan.simps) (auto split: list.splits)
  next
    case (Cons t ts)
    then have tin: "t \<in> set (matches r s)" by simp
    from matches_suffix[OF tin] obtain m0 where m0: "s = m0 @ t" by blast
    show ?thesis
    proof (cases "length t < length s")
      case True
      with "1.prems" Cons have "m = take (length s - length t) s \<or> m \<in> set (hits (scan r t))"
        by (subst (asm) scan.simps) auto
      then show ?thesis
      proof
        assume "m = take (length s - length t) s"
        with m0 have "s = m @ t" by simp
        with tin show ?thesis by blast
      next
        assume "m \<in> set (hits (scan r t))"
        from 1(2)[OF Cons True this] show ?thesis .
      qed
    next
      case False
      with matches_length[OF tin] have "length t = length s" by simp
      with m0 have ts: "t = s" by simp
      from "1.prems" Cons False have "m = [] \<or> (\<exists>c cs. s = c # cs \<and> m \<in> set (hits (scan r cs)))"
        by (subst (asm) scan.simps) (auto split: list.splits)
      then show ?thesis
      proof
        assume "m = []"
        with tin ts show ?thesis by auto
      next
        assume "\<exists>c cs. s = c # cs \<and> m \<in> set (hits (scan r cs))"
        then obtain c cs where "s = c # cs" "m \<in> set (hits (scan r cs))" by blast
        from 1(3)[OF Cons False this] show ?thesis .
      qed
    qed
  qed
qed

section \<open>The date callbacks never fail\<close>

lemma year_match:
  assumes "t \<in> set (matches year_pattern s)"
  shows "\<exists>a b. is_digit a \<and> is_digit b \<and> s = [0x32, 0x30, a, b, 0x5E74] @ t"
proof -
  from assms obtain c1 s1 where s: "s = c1 # s1" and c1: "c1 = 0x32"
    and 1: "t \<in> set (matches (Seq (Chr 0x30) (Seq (Exactly 2 D) (Chr 0x5E74))) s1)"
    by (cases s) (auto simp: year_pattern_def split: if_splits)
  from 1 obtain c2 s2 where s1: "s1 = c2 # s2" and c2: "c2 = 0x30"
    and 2: "t \<in> set (matches (Seq (Exactly 2 D) (Chr 0x5E74)) s2)"
    by (cases s1) (auto split: if_splits)
  from 2 obtain a s3 where s2: "s2 = a # s3" and a: "is_digit a"
    and 3: "t \<in> set (matches (Seq (Exactly 1 D) (Chr 0x5E74)) s3)"
    by (cases s2) (auto simp: D_def digit_def is_digit_def split: if_splits)
  from 3 obtain b s4 where s3: "s3 = b # s4" and b: "is_digit b"
    and 4: "t \<in> set (matches (Chr 0x5E74) s4)"
    by (cases s3) (auto simp: D_def digit_def is_digit_def split: if_splits)
  from 4 have "s4 = 0x5E74 # t"
    by (cases s4) (auto split: if_splits)
  with s s1 s2 s3 c1 c2 a b show ?thesis by simp
qed

lemma year_hit:
  assumes "m \<in> set (hits (scan year_pattern s))"
  shows "\<exists>a b. is_digit a \<and> is_digit b \<and> m = [0x32, 0x30, a, b, 0x5E74]"
proof -
  from hits_scan[OF assms] obtain s' t where st: "t \<in> set (matches year_pattern s')" "s' = m @ t"
    by blast
  from year_match[OF st(1)] st(2) show ?thesis by auto
qed

lemma show_nat_digits: "set (show_nat n) \<subseteq> set [0x30, 0x31, 0x32, 0x33, 0x34, 0x35, 0x36, 0x37, 0x38, 0x39]"
proof (induction n rule: show_nat.induct)
  case (1 n)
  show ?case
  proof (cases "n < 10")
    case True
    then have "n \<in> {0,1,2,3,4,5,6,7,8,9}" by auto
    with True show ?thesis by (subst show_nat.simps) auto
  next
    case False
    have "n mod 10 < 10" by simp
    then have "n mod 10 \<in> {0,1,2,3,4,5,6,7,8,9}" by (auto simp del: mod_less_divisor)
    with False 1 show ?thesis by (subst show_nat.simps) auto
  qed
qed

lemma relative_year_hit:
  assumes "m \<in> set (hits (scan year_pattern s))"
  shows "\<exists>x. relative_year currentYear m = Inr x \<and> x \<noteq> []
        \<and> (x \<in> set [[0x4ECA, 0x5E74], [0x6628, 0x5E74], [0x4E00, 0x6628, 0x5E74], [0x6570, 0x5E74, 0x524D]] \<or> (\<exists>d. x = show_int d @ [0x5E74, 0x524D]))"
proof -
  from year_hit[OF assms] obtain a b where ab: "48 \<le> a" "a \<le> 57" "48 \<le> b" "b \<le> 57"
    and m: "m = [0x32, 0x30, a, b, 0x5E74]" by (auto simp: is_digit_def)
  from ab have f: "search four_digits m = Some [0x32, 0x30, a, b]"
    by (simp add: m four_digits_def class_defs)
  show ?thesis
    unfolding relative_year_def f by (auto simp: Let_def)
qed

lemma render_e_total:
  "\<forall>m \<in> set (hits ps). \<exists>x. f m = Inr x \<Longrightarrow>
   render_e f ps = Inr (render (\<lambda>m. projr (f m)) ps)"
  by (induction ps rule: hits.induct) auto

lemma generalizeDates_total:
  "generalizeDates currentYear content =
     Inr (replace year_pattern (\<lambda>m. projr (relative_year currentYear m))
           (replace full_date_pattern truncate_date content))"
  unfolding generalizeDates_def replace_e_def replace_def
  by (rule render_e_total) (blast dest: relative_year_hit)

lemma needs_hit:
  assumes "needs c r" and "m \<in> set (hits (scan r s))"
  shows "c \<in> set m"
proof -
  from hits_scan[OF assms(2)] obtain s' t where st: "t \<in> set (matches r s')" "s' = m @ t" by blast
  from needs_matches[OF assms(1) st(1)] st(2) show ?thesis by auto
qed

section \<open>A label that contains the title\<close>

lemma redact_info_label:
  assumes "isConfidential j" "\<not> isPublic j" "getGenericReplacement (category j) = Label l"
  shows "redact_info j s = Inr (replace (Lit (title j)) (\<lambda>_. l) s)"
  using assms by (simp add: redact_info_def compile_escapeRegex)


section \<open>The report\<close>

lemma match_all_count:
  "match_all r s = (if match_count r s = 0 then None else Some (hits (scan r s)))"
  by (cases "hits (scan r s)") (simp_all add: match_all_def match_count_def)

lemma show_nat_1: "show_nat (Suc 0) = [0x31]"
  by (subst show_nat.simps) simp

lemma count_rules_none:
  "match_count (pattern r) s = 0 \<Longrightarrow> count_rules (r # rs) s (c, i) = count_rules rs s (c, i)"
  by (simp add: match_all_count)

lemma count_rules_some:
  "match_count (pattern r) s = Suc n \<Longrightarrow>
   count_rules (r # rs) s (c, i) =
   count_rules rs s (c + Suc n, i @ [key r @ [0x3A, 0x20] @ show_nat (Suc n) @ [0x4EF6]])"
  by (simp add: match_all_count) (simp add: match_count_def)

text \<open>
  C5.  A text with exactly one match of the e-mail pattern, exactly one match of the phone
  pattern and no match of the five other patterns is reported with a count of 2 and with the
  two entries for e-mail and phone, in the order of the rule table.
\<close>

theorem report_one_email_one_phone:
  assumes "match_count email_pattern text = 1" and "match_count phone_pattern text = 1"
    and "match_count companyName_pattern text = 0" and "match_count personName_pattern text = 0"
    and "match_count specificNumbers_pattern text = 0" and "match_count address_pattern text = 0"
    and "match_count productName_pattern text = 0"
  shows "changedCount (generateAnonymizationReport text anonymized) = 2
     \<and> removedInfo (generateAnonymizationReport text anonymized) = [[0x65, 0x6D, 0x61, 0x69, 0x6C, 0x3A, 0x20, 0x31, 0x4EF6] \<comment> \<open>email: 1 item\<close>, [0x70, 0x68, 0x6F, 0x6E, 0x65, 0x3A, 0x20, 0x31, 0x4EF6] \<comment> \<open>phone: 1 item\<close>]"
  using assms
  by (simp add: generateAnonymizationReport_def anonymizationRules_def count_rules_none
      count_rules_some show_nat_1 del: count_rules.simps(2))

theorem report_one_email_one_phone_witness:
  "match_count email_pattern [0x61, 0x40, 0x62, 0x2E, 0x63, 0x6F, 0x20, 0x30, 0x33, 0x2D, 0x31, 0x32, 0x33, 0x34, 0x2D, 0x35, 0x36, 0x37, 0x38] \<comment> \<open>a@b.co 03-1234-5678\<close> = 1
   \<and> match_count phone_pattern [0x61, 0x40, 0x62, 0x2E, 0x63, 0x6F, 0x20, 0x30, 0x33, 0x2D, 0x31, 0x32, 0x33, 0x34, 0x2D, 0x35, 0x36, 0x37, 0x38] \<comment> \<open>a@b.co 03-1234-5678\<close> = 1
   \<and> match_count companyName_pattern [0x61, 0x40, 0x62, 0x2E, 0x63, 0x6F, 0x20, 0x30, 0x33, 0x2D, 0x31, 0x32, 0x33, 0x34, 0x2D, 0x35, 0x36, 0x37, 0x38] \<comment> \<open>a@b.co 03-1234-5678\<close> = 0
   \<and> match_count personName_pattern [0x61, 0x40, 0x62, 0x2E, 0x63, 0x6F, 0x20, 0x30, 0x33, 0x2D, 0x31, 0x32, 0x33, 0x34, 0x2D, 0x35, 0x36, 0x37, 0x38] \<comment> \<open>a@b.co 03-1234-5678\<close> = 0
   \<and> match_count specificNumbers_pattern [0x61, 0x40, 0x62, 0x2E, 0x63, 0x6F, 0x20, 0x30, 0x33, 0x2D, 0x31, 0x32, 0x33, 0x34, 0x2D, 0x35, 0x36, 0x37, 0x38] \<comment> \<open>a@b.co 03-1234-5678\<close> = 0
   \<and> match_count address_pattern [0x61, 0x40, 0x62, 0x2E, 0x63, 0x6F, 0x20, 0x30, 0x33, 0x2D, 0x31, 0x32, 0x33, 0x34, 0x2D, 0x35, 0x36, 0x37, 0x38] \<comment> \<open>a@b.co 03-1234-5678\<close> = 0
   \<and> match_count productName_pattern [0x61, 0x40, 0x62, 0x2E, 0x63, 0x6F, 0x20, 0x30, 0x33, 0x2D, 0x31, 0x32, 0x33, 0x34, 0x2D, 0x35, 0x36, 0x37, 0x38] \<comment> \<open>a@b.co 03-1234-5678\<close> = 0
   \<and> changedCount (generateAnonymizationReport [0x61, 0x40, 0x62, 0x2E, 0x63, 0x6F, 0x20, 0x30, 0x33, 0x2D, 0x31, 0x32, 0x33, 0x34, 0x2D, 0x35, 0x36, 0x37, 0x38] \<comment> \<open>a@b.co 03-1234-5678\<close> [0x63, 0x6F, 0x6E, 0x74, 0x61, 0x63, 0x74, 0x40, 0x65, 0x78, 0x61, 0x6D, 0x70, 0x6C, 0x65, 0x2E, 0x63, 0x6F, 0x6D, 0x20, 0x30, 0x58, 0x58, 0x2D, 0x58, 0x58, 0x58, 0x58, 0x2D, 0x58, 0x58, 0x58, 0x58] \<comment> \<open>contact@example.com 0XX-XXXX-XXXX\<close>) = 2
   \<and> removedInfo (generateAnonymizationReport [0x61, 0x40, 0x62, 0x2E, 0x63, 0x6F, 0x20, 0x30, 0x33, 0x2D, 0x31, 0x32, 0x33, 0x34, 0x2D, 0x35, 0x36, 0x37, 0x38] \<comment> \<open>a@b.co 03-1234-5678\<close> [0x63, 0x6F, 0x6E, 0x74, 0x61, 0x63, 0x74, 0x40, 0x65, 0x78, 0x61, 0x6D, 0x70, 0x6C, 0x65, 0x2E, 0x63, 0x6F, 0x6D, 0x20, 0x30, 0x58, 0x58, 0x2D, 0x58, 0x58, 0x58, 0x58, 0x2D, 0x58, 0x58, 0x58, 0x58] \<comment> \<open>contact@example.com 0XX-XXXX-XXXX\<close>)
       = [[0x65, 0x6D, 0x61, 0x69, 0x6C, 0x3A, 0x20, 0x31, 0x4EF6] \<comment> \<open>email: 1 item\<close>, [0x70, 0x68, 0x6F, 0x6E, 0x65, 0x3A, 0x20, 0x31, 0x4EF6] \<comment> \<open>phone: 1 item\<close>]"
  using report_one_email_one_phone [of "[0x61, 0x40, 0x62, 0x2E, 0x63, 0x6F, 0x20, 0x30, 0x33, 0x2D, 0x31, 0x32, 0x33, 0x34, 0x2D, 0x35, 0x36, 0x37, 0x38]" "[0x63, 0x6F, 0x6E, 0x74, 0x61, 0x63, 0x74, 0x40, 0x65, 0x78, 0x61, 0x6D, 0x70, 0x6C, 0x65, 0x2E, 0x63, 0x6F, 0x6D, 0x20, 0x30, 0x58, 0x58, 0x2D, 0x58, 0x58, 0x58, 0x58, 0x2D, 0x58, 0x58, 0x58, 0x58]"]
  by (simp add: match_count_def rule_defs engine)

lemma parse_show_nat: "foldl (\<lambda>a c. 10 * a + (c - 0x30)) 0 (show_nat n) = n"
proof (induction n rule: show_nat.induct)
  case (1 n)
  show ?case
  proof (cases "n < 10")
    case True
    then show ?thesis by (subst show_nat.simps) simp
  next
    case False
    with 1 show ?thesis by (subst show_nat.simps) simp
  qed
qed

lemma show_nat_is_digit: "\<forall>c \<in> set (show_nat n). is_digit c"
  using show_nat_digits[of n] by (auto simp: is_digit_def)

lemma parseInt_show_nat:
  "rest = [] \<or> \<not> is_digit (hd rest) \<Longrightarrow> parseInt (show_nat n @ rest) = n"
  using takeWhile_digits[OF show_nat_is_digit, of rest n]
  by (simp add: parseInt_def parse_show_nat)

lemma entry_count_entry:
  "0x3A \<notin> set k \<Longrightarrow> entry_count (k @ [0x3A, 0x20] @ show_nat n @ [0x4EF6]) = n"
proof -
  assume "0x3A \<notin> set k"
  then have "dropWhile (\<lambda>c. c \<noteq> 0x3A) (k @ [0x3A, 0x20] @ show_nat n @ [0x4EF6]) = [0x3A, 0x20] @ show_nat n @ [0x4EF6]"
    by (induction k) auto
  then show ?thesis
    by (simp add: entry_count_def parseInt_show_nat is_digit_def)
qed

lemma count_rules_consistent:
  assumes "\<forall>r \<in> set rs. 0x3A \<notin> set (key r)"
    and "c = sum_list (map entry_count i)" and "i = [] \<longleftrightarrow> c = 0"
  shows "fst (count_rules rs s (c, i)) = sum_list (map entry_count (snd (count_rules rs s (c, i))))
     \<and> (snd (count_rules rs s (c, i)) = [] \<longleftrightarrow> fst (count_rules rs s (c, i)) = 0)"
  using assms
proof (induction rs arbitrary: c i)
  case Nil
  then show ?case by simp
next
  case (Cons r rs)
  show ?case
  proof (cases "match_count (pattern r) s")
    case 0
    with Cons show ?thesis by (simp add: count_rules_none del: count_rules.simps(2))
  next
    case (Suc n)
    let ?e = "key r @ [0x3A, 0x20] @ show_nat (Suc n) @ [0x4EF6]"
    from Cons.prems(1) have "entry_count ?e = Suc n" by (intro entry_count_entry) simp
    with Cons.prems have "c + Suc n = sum_list (map entry_count (i @ [?e]))" by simp
    moreover have "i @ [?e] = [] \<longleftrightarrow> c + Suc n = 0" by simp
    ultimately show ?thesis
      using Cons.IH[of "c + Suc n" "i @ [?e]"] Cons.prems(1) Suc
      by (simp add: count_rules_some del: count_rules.simps(2))
  qed
qed

text \<open>
  C10.  In every report the count is the sum of the numbers of the entries, and the list of
  entries is empty exactly when the count is 0.
\<close>

theorem report_consistent:
  "changedCount (generateAnonymizationReport original anonymized)
     = sum_list (map entry_count (removedInfo (generateAnonymizationReport original anonymized)))
   \<and> (removedInfo (generateAnonymizationReport original anonymized) = []
        \<longleftrightarrow> changedCount (generateAnonymizationReport original anonymized) = 0)"
proof -
  have "\<forall>r \<in> set anonymizationRules. 0x3A \<notin> set (key r)"
    by (simp add: anonymizationRules_def)
  from count_rules_consistent[OF this, of 0 "[]" original] show ?thesis
    by (simp add: generateAnonymizationReport_def split_beta)
qed

text \<open>
  C9.  The report does not depend on its second argument: two calls with the same original
  text give the same count, the same list and the same level.
\<close>

theorem report_ignores_anonymized:
  "generateAnonymizationReport original a1 = generateAnonymizationReport original a2"
  by (simp add: generateAnonymizationReport_def)

section \<open>The risk level\<close>

lemma test_at: "matches r (w @ post) \<noteq> [] \<Longrightarrow> test r (pre @ w @ post)"
proof (induction pre)
  case Nil
  then show ?case
    by (cases "w @ post"; cases "matches r (w @ post)") (auto simp: test_def)
next
  case (Cons c pre)
  then show ?case
    by (cases "matches r (c # pre @ w @ post)") (auto simp: test_def)
qed

lemma test_includes:
  assumes "str_includes s w" and "\<And>post. matches r (w @ post) \<noteq> []"
  shows "test r s"
proof -
  from assms(1) obtain pre post where "s = pre @ w @ post" by (auto simp: str_includes_conv)
  with test_at[OF assms(2)] show ?thesis by simp
qed

lemma amount_1oku:
  assumes "str_includes s [0x31, 0x5104, 0x5186]"
  shows "test amount_pattern s"
proof (rule test_includes[OF assms])
  fix post
  show "matches amount_pattern ([0x31, 0x5104, 0x5186] @ post) \<noteq> []"
    by (simp add: amount_pattern_def class_defs form_defs star_simps)
qed

lemma percent_50:
  assumes "str_includes s [0x35, 0x30, 0x25]"
  shows "test any_percent_pattern s"
proof (rule test_includes[OF assms])
  fix post
  show "matches any_percent_pattern ([0x35, 0x30, 0x25] @ post) \<noteq> []"
    by (simp add: any_percent_pattern_def class_defs form_defs star_simps)
qed

text \<open>
  C7.  A text that contains the keyword for sales, the amount of 1 oku yen and the
  percentage 50%, that has exactly two bracket-quoted spans, none of the thirteen other
  keywords of the list and no full date, has the score 10 + 20 + 10 + 10 = 50 and the level
  high.
\<close>

theorem risk_scenario_high:
  assumes "str_includes text [0x58F2, 0x4E0A] \<comment> \<open>sales\<close>" and "str_includes text [0x31, 0x5104, 0x5186] \<comment> \<open>1 oku yen\<close>"
    and "str_includes text [0x35, 0x30, 0x25] \<comment> \<open>50%\<close>" and "match_count quoted_pattern text = 2"
    and "list_all (\<lambda>k. \<not> str_includes text k) (tl highRiskKeywords)"
    and "\<not> test full_date_pattern text"
  shows "risk_score text = 50 \<and> determineAnonymizationLevel text = High"
proof -
  from assms(1,5) have "keyword_score text highRiskKeywords = 10"
    by (simp add: keyword_score_def highRiskKeywords_def)
  moreover from assms(4) have "match_all quoted_pattern text = Some (hits (scan quoted_pattern text))"
    by (simp add: match_all_count)
  ultimately have "risk_score text = 50"
    using amount_1oku[OF assms(2)] percent_50[OF assms(3)] assms(4,6)
    by (simp add: risk_score_def match_count_def)
  then show ?thesis by (simp add: determineAnonymizationLevel_def)
qed

theorem risk_scenario_high_witness:
  "str_includes [0x58F2, 0x4E0A, 0x31, 0x5104, 0x5186, 0x35, 0x30, 0x25, 0x300C, 0x3042, 0x300D, 0x300C, 0x3044, 0x300D] \<comment> \<open>sales, 1 oku yen, 50%, and two bracketed spans of one kana each\<close> [0x58F2, 0x4E0A] \<comment> \<open>sales\<close>
   \<and> str_includes [0x58F2, 0x4E0A, 0x31, 0x5104, 0x5186, 0x35, 0x30, 0x25, 0x300C, 0x3042, 0x300D, 0x300C, 0x3044, 0x300D] \<comment> \<open>sales, 1 oku yen, 50%, and two bracketed spans of one kana each\<close> [0x31, 0x5104, 0x5186] \<comment> \<open>1 oku yen\<close>
   \<and> str_includes [0x58F2, 0x4E0A, 0x31, 0x5104, 0x5186, 0x35, 0x30, 0x25, 0x300C, 0x3042, 0x300D, 0x300C, 0x3044, 0x300D] \<comment> \<open>sales, 1 oku yen, 50%, and two bracketed spans of one kana each\<close> [0x35, 0x30, 0x25] \<comment> \<open>50%\<close>
   \<and> match_count quoted_pattern [0x58F2, 0x4E0A, 0x31, 0x5104, 0x5186, 0x35, 0x30, 0x25, 0x300C, 0x3042, 0x300D, 0x300C, 0x3044, 0x300D] \<comment> \<open>sales, 1 oku yen, 50%, and two bracketed spans of one kana each\<close> = 2
   \<and> list_all (\<lambda>k. \<not> str_includes [0x58F2, 0x4E0A, 0x31, 0x5104, 0x5186, 0x35, 0x30, 0x25, 0x300C, 0x3042, 0x300D, 0x300C, 0x3044, 0x300D] \<comment> \<open>sales, 1 oku yen, 50%, and two bracketed spans of one kana each\<close> k) (tl highRiskKeywords)
   \<and> \<not> test full_date_pattern [0x58F2, 0x4E0A, 0x31, 0x5104, 0x5186, 0x35, 0x30, 0x25, 0x300C, 0x3042, 0x300D, 0x300C, 0x3044, 0x300D] \<comment> \<open>sales, 1 oku yen, 50%, and two bracketed spans of one kana each\<close>
   \<and> risk_score [0x58F2, 0x4E0A, 0x31, 0x5104, 0x5186, 0x35, 0x30, 0x25, 0x300C, 0x3042, 0x300D, 0x300C, 0x3044, 0x300D] \<comment> \<open>sales, 1 oku yen, 50%, and two bracketed spans of one kana each\<close> = 50
   \<and> determineAnonymizationLevel [0x58F2, 0x4E0A, 0x31, 0x5104, 0x5186, 0x35, 0x30, 0x25, 0x300C, 0x3042, 0x300D, 0x300C, 0x3044, 0x300D] \<comment> \<open>sales, 1 oku yen, 50%, and two bracketed spans of one kana each\<close> = High"
  using risk_scenario_high [of "[0x58F2, 0x4E0A, 0x31, 0x5104, 0x5186, 0x35, 0x30, 0x25, 0x300C, 0x3042, 0x300D, 0x300C, 0x3044, 0x300D]"]
  by (simp add: match_count_def quoted_pattern_def full_date_pattern_def highRiskKeywords_def engine)

section \<open>A written text that matches again\<close>

text \<open>
  C2 (as stated) fails on a text with an e-mail address: the output is the placeholder address,
  and the pattern of the e-mail rule matches it.
\<close>

theorem anonymize_output_rematches:
  "anonymize 2025 [0x61, 0x40, 0x62, 0x2E, 0x63, 0x6F] \<comment> \<open>a@b.co\<close> [] = Inr [0x63, 0x6F, 0x6E, 0x74, 0x61, 0x63, 0x74, 0x40, 0x65, 0x78, 0x61, 0x6D, 0x70, 0x6C, 0x65, 0x2E, 0x63, 0x6F, 0x6D] \<comment> \<open>contact@example.com\<close>
   \<and> match_all email_pattern [0x63, 0x6F, 0x6E, 0x74, 0x61, 0x63, 0x74, 0x40, 0x65, 0x78, 0x61, 0x6D, 0x70, 0x6C, 0x65, 0x2E, 0x63, 0x6F, 0x6D] \<comment> \<open>contact@example.com\<close> = Some [[0x63, 0x6F, 0x6E, 0x74, 0x61, 0x63, 0x74, 0x40, 0x65, 0x78, 0x61, 0x6D, 0x70, 0x6C, 0x65, 0x2E, 0x63, 0x6F, 0x6D] \<comment> \<open>contact@example.com\<close>]"
  by (simp add: redact_defs rule_defs num_defs date_defs engine)

section \<open>Failures\<close>

text \<open>
  With categories whose looked-up value is a string, the pipeline returns a text: the
  pattern built from an escaped title is always accepted, and the unchecked search in the
  callback for years always succeeds.  The risk level and the report are total functions
  with no failing branch.
\<close>

lemma redact_all_total:
  assumes "list_all (\<lambda>j. isConfidential j \<and> \<not> isPublic j \<longrightarrow> is_label (getGenericReplacement (category j))) js"
  shows "\<exists>out. redact_all js s = Inr out"
  using assms
proof (induction js arbitrary: s)
  case Nil
  then show ?case by simp
next
  case (Cons j js)
  have "\<exists>s'. redact_info j s = Inr s'"
  proof (cases "isConfidential j \<and> \<not> isPublic j")
    case True
    with Cons.prems obtain l' where "getGenericReplacement (category j) = Label l'"
      by (cases "getGenericReplacement (category j)") auto
    with redact_info_label True show ?thesis by blast
  next
    case False
    then show ?thesis by (auto simp: redact_info_def)
  qed
  then obtain s' where s': "redact_info j s = Inr s'" by blast
  from Cons.IH[of s'] Cons.prems obtain out where "redact_all js s' = Inr out" by auto
  with s' show ?case by simp
qed

lemma anonymize_total:
  assumes "list_all (\<lambda>j. isConfidential j \<and> \<not> isPublic j \<longrightarrow> is_label (getGenericReplacement (category j))) companyInfo"
  shows "\<exists>out. anonymize currentYear content companyInfo = Inr out"
proof -
  from redact_all_total[OF assms] obtain s where "redact_all companyInfo content = Inr s" by blast
  then show ?thesis by (simp add: anonymize_def generalizeDates_total)
qed

text \<open>
  C8 fails on the code.  A record whose category is the name of a property that the table of
  labels inherits, here \<^verbatim>\<open>valueOf\<close>, makes \<^verbatim>\<open>getGenericReplacement\<close> return a built-in
  function; \<^verbatim>\<open>replace\<close> calls it for the first occurrence of the title, and the call raises a
  \<^verbatim>\<open>TypeError\<close>.
\<close>

theorem anonymize_inherited_category:
  "anonymize 2025 [0x73, 0x65, 0x63, 0x72, 0x65, 0x74, 0x20, 0x70, 0x6C, 0x61, 0x6E] \<comment> \<open>secret plan\<close>
     [\<lparr>title = [0x73, 0x65, 0x63, 0x72, 0x65, 0x74] \<comment> \<open>secret\<close>, category = [0x76, 0x61, 0x6C, 0x75, 0x65, 0x4F, 0x66] \<comment> \<open>valueOf\<close>, isConfidential = True, isPublic = False\<rparr>]
   = Inl TypeError"
  by (simp add: redact_defs engine)

section \<open>New occurrences of a text\<close>













section \<open>No stage brings a clear title back\<close>

lemma fixed_label_nonempty: "w \<in> set fixed_labels \<Longrightarrow> w \<noteq> []"
  by (auto simp: fixed_labels_def)


lemma rule_labels:
  assumes "r \<in> set anonymizationRules"
  shows "case replacement r of
           Literal l \<Rightarrow> l \<in> set fixed_labels
         | Transform f \<Rightarrow> \<forall>m. f m \<in> set fixed_labels"
proof -
  have "list_all (\<lambda>r. case replacement r of
           Literal l \<Rightarrow> l \<in> set fixed_labels
         | Transform f \<Rightarrow> \<forall>m. f m \<in> set fixed_labels) anonymizationRules"
    by (simp add: anonymizationRules_def fixed_labels_def
        specificNumbers_replacement_def productName_replacement_def)
  with assms show ?thesis unfolding list_all_iff by blast
qed




lemma between12_match:
  assumes "u \<in> set (matches (Between 1 2 D) s)"
  shows "\<exists>ms. digits12 ms \<and> s = ms @ u"
proof (cases s)
  case Nil
  with assms show ?thesis by (simp add: form_defs class_defs)
next
  case (Cons x s1)
  show ?thesis
  proof (cases s1)
    case Nil
    with Cons assms have "digits12 [x] \<and> s = [x] @ u"
      by (auto simp: form_defs class_defs digits12_def is_digit_def split: if_splits)
    then show ?thesis by blast
  next
    case (Cons y s2)
    with \<open>s = x # s1\<close> assms
    have "(digits12 [x] \<and> s = [x] @ u) \<or> (digits12 [x, y] \<and> s = [x, y] @ u)"
      by (auto simp: form_defs class_defs digits12_def is_digit_def split: if_splits)
    then show ?thesis by blast
  qed
qed

lemma full_date_match:
  assumes "t \<in> set (matches full_date_pattern s)"
  shows "\<exists>a b ms rest. is_digit a \<and> is_digit b \<and> digits12 ms
           \<and> s = [0x32, 0x30, a, b, 0x5E74] @ ms @ [0x6708] @ rest"
proof -
  let ?tail = "Seq (Between 1 2 D) (Seq (Chr 0x6708) (Seq (Between 1 2 D) (Chr 0x65E5)))"
  from assms obtain c1 s1 where s: "s = c1 # s1" and c1: "c1 = 0x32"
    and 1: "t \<in> set (matches (Seq (Chr 0x30) (Seq (Exactly 2 D) (Seq (Chr 0x5E74) ?tail))) s1)"
    by (cases s) (auto simp: full_date_pattern_def split: if_splits)
  from 1 obtain c2 s2 where s1: "s1 = c2 # s2" and c2: "c2 = 0x30"
    and 2: "t \<in> set (matches (Seq (Exactly 2 D) (Seq (Chr 0x5E74) ?tail)) s2)"
    by (cases s1) (auto split: if_splits)
  from 2 obtain a s3 where s2: "s2 = a # s3" and a: "is_digit a"
    and 3: "t \<in> set (matches (Seq (Exactly 1 D) (Seq (Chr 0x5E74) ?tail)) s3)"
    by (cases s2) (auto simp: D_def digit_def is_digit_def split: if_splits)
  from 3 obtain b s4 where s3: "s3 = b # s4" and b: "is_digit b"
    and 4: "t \<in> set (matches (Seq (Chr 0x5E74) ?tail) s4)"
    by (cases s3) (auto simp: D_def digit_def is_digit_def split: if_splits)
  from 4 obtain s5 where s4: "s4 = 0x5E74 # s5" and 5: "t \<in> set (matches ?tail s5)"
    by (cases s4) (auto split: if_splits)
  from 5 obtain u where u: "u \<in> set (matches (Between 1 2 D) s5)"
    and 6: "t \<in> set (matches (Seq (Chr 0x6708) (Seq (Between 1 2 D) (Chr 0x65E5))) u)"
    by auto
  from between12_match[OF u] obtain ms where ms: "digits12 ms" "s5 = ms @ u" by blast
  from 6 obtain rest where "u = 0x6708 # rest"
    by (cases u) (auto split: if_splits)
  with s s1 s2 s3 s4 c1 c2 a b ms show ?thesis by auto
qed

lemma prefix_by_member:
  assumes "m @ u = p @ rest" and "c \<in> set m" and "c \<notin> set p"
  shows "starts_with m p"
proof -
  from assms(1) obtain us where "(m = p @ us \<and> us @ u = rest) \<or> (m @ us = p \<and> u = us @ rest)"
    by (auto simp: append_eq_append_conv2)
  then show ?thesis
  proof
    assume "m = p @ us \<and> us @ u = rest"
    then show ?thesis unfolding starts_with_conv by blast
  next
    assume "m @ us = p \<and> u = us @ rest"
    then have "set m \<subseteq> set p" by auto
    with assms(2,3) show ?thesis by blast
  qed
qed



section \<open>Confidential titles\<close>

lemma label_nonempty:
  assumes "getGenericReplacement c = Label l"
  shows "l \<noteq> []"
proof (cases "map_of replacements c")
  case None
  have "map_of object_prototype c \<noteq> Some (Label l)"
  proof
    assume "map_of object_prototype c = Some (Label l)"
    then have "(c, Label l) \<in> set object_prototype" by (rule map_of_SomeD)
    then show False by (auto simp: object_prototype_def)
  qed
  with None assms have "l = [0x975E, 0x516C, 0x958B, 0x60C5, 0x5831]"
    by (auto simp: getGenericReplacement_def split: option.splits)
  then show ?thesis by simp
next
  case (Some l')
  with assms have "l' = l" by (simp add: getGenericReplacement_def)
  with Some have "(c, l) \<in> set replacements" by (auto dest: map_of_SomeD)
  then show ?thesis by (auto simp: replacements_def)
qed










section \<open>Matches after the pipeline\<close>

lemma matches_context:
  "t \<in> set (matches r s) \<Longrightarrow> s = m @ t \<Longrightarrow> t' \<in> set (matches r (m @ t'))"
proof (induction r s arbitrary: t m t' rule: matches.induct)
  case (1 s)
  then show ?case by simp
next
  case (2 c s)
  then show ?case by (cases s) (auto split: if_splits)
next
  case (3 neg rs s)
  then show ?case by (cases s) (auto split: if_splits)
next
  case (4 a b s)
  from "4.prems"(1) obtain u where u: "u \<in> set (matches a s)" "t \<in> set (matches b u)" by auto
  from matches_suffix[OF u(1)] obtain m1 where m1: "s = m1 @ u" by blast
  from matches_suffix[OF u(2)] obtain m2 where m2: "u = m2 @ t" by blast
  from m1 m2 "4.prems"(2) have m: "m = m1 @ m2" by simp
  from "4.IH"(1)[OF u(1) m1] m have "m2 @ t' \<in> set (matches a (m @ t'))" by simp
  moreover from "4.IH"(2)[OF u(1) u(2) m2] have "t' \<in> set (matches b (m2 @ t'))" .
  ultimately show ?case by (simp only: matches.simps(4) set_concat set_map) blast
next
  case (5 a b s)
  then show ?case by auto
next
  case (6 a s)
  show ?case
  proof (cases "t = s")
    case True
    with "6.prems"(2) have "m = []" by simp
    then show ?thesis by (subst star_simps) simp
  next
    case False
    with "6.prems"(1) obtain u where u: "u \<in> set (matches a s)" "length u < length s"
      "t \<in> set (matches (Star a) u)" by (subst (asm) star_simps) auto
    from matches_suffix[OF u(1)] obtain m1 where m1: "s = m1 @ u" by blast
    from matches_suffix[OF u(3)] obtain m2 where m2: "u = m2 @ t" by blast
    from m1 m2 "6.prems"(2) have m: "m = m1 @ m2" by simp
    from m1 u(2) have ne: "m1 \<noteq> []" by auto
    from "6.IH"(1)[OF u(1) m1] m have 1: "m2 @ t' \<in> set (matches a (m @ t'))" by simp
    from u(1) u(2) have "u \<in> set (filter (\<lambda>t. length t < length s) (matches a s))" by simp
    from "6.IH"(2)[OF this u(3) m2] have 2: "t' \<in> set (matches (Star a) (m2 @ t'))" .
    from ne m have "length (m2 @ t') < length (m @ t')" by simp
    with 1 have "m2 @ t' \<in> set (filter (\<lambda>t. length t < length (m @ t')) (matches a (m @ t')))"
      by simp
    with 2 show ?thesis
      by (subst star_simps, simp only: set_append set_concat set_map list.set) blast
  qed
next
  case (7 a s)
  show ?case
  proof (cases "t = s")
    case True
    with "7.prems"(2) have "m = []" by simp
    then show ?thesis by (subst star_simps) simp
  next
    case False
    with "7.prems"(1) obtain u where u: "u \<in> set (matches a s)" "length u < length s"
      "t \<in> set (matches (LazyStar a) u)" by (subst (asm) star_simps) auto
    from matches_suffix[OF u(1)] obtain m1 where m1: "s = m1 @ u" by blast
    from matches_suffix[OF u(3)] obtain m2 where m2: "u = m2 @ t" by blast
    from m1 m2 "7.prems"(2) have m: "m = m1 @ m2" by simp
    from m1 u(2) have ne: "m1 \<noteq> []" by auto
    from "7.IH"(1)[OF u(1) m1] m have 1: "m2 @ t' \<in> set (matches a (m @ t'))" by simp
    from u(1) u(2) have "u \<in> set (filter (\<lambda>t. length t < length s) (matches a s))" by simp
    from "7.IH"(2)[OF this u(3) m2] have 2: "t' \<in> set (matches (LazyStar a) (m2 @ t'))" .
    from ne m have "length (m2 @ t') < length (m @ t')" by simp
    with 1 have "m2 @ t' \<in> set (filter (\<lambda>t. length t < length (m @ t')) (matches a (m @ t')))"
      by simp
    with 2 show ?thesis
      by (subst star_simps, simp only: set_append set_concat set_map list.set) blast
  qed
qed

lemma consumes_matches: "consumes r \<Longrightarrow> t \<in> set (matches r s) \<Longrightarrow> length t < length s"
proof (induction r s arbitrary: t rule: matches.induct)
  case (2 c s)
  then show ?case by (cases s) (auto split: if_splits)
next
  case (3 neg rs s)
  then show ?case by (cases s) (auto split: if_splits)
next
  case (4 a b s)
  from "4.prems"(2) obtain u where u: "u \<in> set (matches a s)" "t \<in> set (matches b u)" by auto
  from "4.prems"(1) have "consumes a \<or> consumes b" by simp
  then show ?case
  proof
    assume "consumes a"
    from "4.IH"(1)[OF this u(1)] matches_length[OF u(2)] show ?thesis by simp
  next
    assume "consumes b"
    from "4.IH"(2)[OF u(1) this u(2)] matches_length[OF u(1)] show ?thesis by simp
  qed
next
  case (5 a b s)
  from "5.prems" have "(consumes a \<and> t \<in> set (matches a s)) \<or> (consumes b \<and> t \<in> set (matches b s))"
    by auto
  with "5.IH" show ?case by blast
next
  case (1 s)
  from "1.prems"(1) show ?case by simp
next
  case (6 a s)
  from "6.prems"(1) show ?case by simp
next
  case (7 a s)
  from "7.prems"(1) show ?case by simp
qed

text \<open>The reading of \<open>covered\<close> that the proofs use.\<close>

lemma covered_iff:
  "covered r ts \<longleftrightarrow>
   (\<forall>pre xs post. ts = pre @ xs @ post \<and> map fst post \<in> set (matches r (map fst (xs @ post)))
      \<longrightarrow> (\<exists>c \<in> set xs. snd c))"
proof (induction ts)
  case Nil
  show ?case
  proof
    assume "covered r []"
    then show "\<forall>pre xs post. [] = pre @ xs @ post \<and> map fst post \<in> set (matches r (map fst (xs @ post)))
      \<longrightarrow> (\<exists>c \<in> set xs. snd c)" by simp
  next
    assume a: "\<forall>pre xs post. [] = pre @ xs @ post \<and> map fst post \<in> set (matches r (map fst (xs @ post)))
      \<longrightarrow> (\<exists>c \<in> set xs. snd c)"
    have "matches r [] = []"
    proof (rule ccontr)
      assume "matches r [] \<noteq> []"
      then obtain t where t: "t \<in> set (matches r [])" by (cases "matches r []") auto
      from matches_length[OF t] have "t = []" by simp
      with t a[rule_format, of "[]" "[]" "[]"] show False by simp
    qed
    then show "covered r []" by simp
  qed
next
  case (Cons c cs)
  let ?here = "list_all (\<lambda>t. list_ex snd (take (length (c # cs) - length t) (c # cs)))
        (matches r (map fst (c # cs)))"
  have here: "?here \<longleftrightarrow> (\<forall>xs post. c # cs = xs @ post
        \<and> map fst post \<in> set (matches r (map fst (xs @ post))) \<longrightarrow> (\<exists>c \<in> set xs. snd c))"
  proof
    assume h: ?here
    show "\<forall>xs post. c # cs = xs @ post
        \<and> map fst post \<in> set (matches r (map fst (xs @ post))) \<longrightarrow> (\<exists>c \<in> set xs. snd c)"
    proof (intro allI impI)
      fix xs post
      assume a: "c # cs = xs @ post \<and> map fst post \<in> set (matches r (map fst (xs @ post)))"
      then have "map fst post \<in> set (matches r (map fst (c # cs)))" by simp
      with h have "list_ex snd (take (length (c # cs) - length (map fst post)) (c # cs))"
        unfolding list_all_iff by blast
      moreover from a have "take (length (c # cs) - length (map fst post)) (c # cs) = xs"
        by simp
      ultimately show "\<exists>c \<in> set xs. snd c" by (simp add: list_ex_iff)
    qed
  next
    assume a: "\<forall>xs post. c # cs = xs @ post
        \<and> map fst post \<in> set (matches r (map fst (xs @ post))) \<longrightarrow> (\<exists>c \<in> set xs. snd c)"
    show ?here unfolding list_all_iff
    proof
      fix t assume t: "t \<in> set (matches r (map fst (c # cs)))"
      let ?k = "length (c # cs) - length t"
      from matches_suffix[OF t] obtain m where m: "map fst (c # cs) = m @ t" by blast
      then have "length (c # cs) = length m + length t"
        by (metis length_append length_map)
      then have k: "?k = length m" by simp
      have "map fst (drop ?k (c # cs)) = t"
        using m k by (metis append_eq_conv_conj drop_map)
      with t a[rule_format, of "take ?k (c # cs)" "drop ?k (c # cs)"]
      have "\<exists>c \<in> set (take ?k (c # cs)). snd c" by simp
      then show "list_ex snd (take ?k (c # cs))" by (simp add: list_ex_iff)
    qed
  qed
  show ?case
  proof
    assume "covered r (c # cs)"
    then have h: ?here and cs: "covered r cs" by simp_all
    show "\<forall>pre xs post. c # cs = pre @ xs @ post
        \<and> map fst post \<in> set (matches r (map fst (xs @ post))) \<longrightarrow> (\<exists>c \<in> set xs. snd c)"
    proof (intro allI impI)
      fix pre xs post
      assume a: "c # cs = pre @ xs @ post \<and> map fst post \<in> set (matches r (map fst (xs @ post)))"
      show "\<exists>c \<in> set xs. snd c"
      proof (cases pre)
        case Nil
        with a h here show ?thesis by simp
      next
        case (Cons p pre')
        with a have "cs = pre' @ xs @ post" by simp
        with a cs Cons.IH show ?thesis by blast
      qed
    qed
  next
    assume a: "\<forall>pre xs post. c # cs = pre @ xs @ post
        \<and> map fst post \<in> set (matches r (map fst (xs @ post))) \<longrightarrow> (\<exists>c \<in> set xs. snd c)"
    have "\<forall>xs post. c # cs = xs @ post
        \<and> map fst post \<in> set (matches r (map fst (xs @ post))) \<longrightarrow> (\<exists>c \<in> set xs. snd c)"
    proof (intro allI impI)
      fix xs post
      assume "c # cs = xs @ post \<and> map fst post \<in> set (matches r (map fst (xs @ post)))"
      then have "c # cs = [] @ xs @ post \<and> map fst post \<in> set (matches r (map fst (xs @ post)))"
        by simp
      with a show "\<exists>c \<in> set xs. snd c" by blast
    qed
    with here have h: ?here by simp
    have "\<forall>pre xs post. cs = pre @ xs @ post
        \<and> map fst post \<in> set (matches r (map fst (xs @ post))) \<longrightarrow> (\<exists>c \<in> set xs. snd c)"
    proof (intro allI impI)
      fix pre xs post
      assume "cs = pre @ xs @ post \<and> map fst post \<in> set (matches r (map fst (xs @ post)))"
      then have "c # cs = (c # pre) @ xs @ post \<and> map fst post \<in> set (matches r (map fst (xs @ post)))"
        by simp
      with a show "\<exists>c \<in> set xs. snd c" by blast
    qed
    with Cons.IH have "covered r cs" by simp
    with h show "covered r (c # cs)" by simp
  qed
qed

lemma retag_fst: "source ps = map fst ts \<Longrightarrow> map fst (retag f ps ts) = render f ps"
proof (induction ps arbitrary: ts rule: hits.induct)
  case 1
  then show ?case by simp
next
  case (2 c ps)
  from "2.prems" obtain t0 ts' where ts: "ts = t0 # ts'" and c: "fst t0 = c"
    and s: "source ps = map fst ts'" by (cases ts) auto
  from "2.IH"[OF s] ts c show ?case by simp
next
  case (3 m ps)
  from "3.prems" have "m @ source ps = map fst ts" by simp
  then have "source ps = drop (length m) (map fst ts)" by (metis append_eq_conv_conj)
  then have "source ps = map fst (drop (length m) ts)" by (simp add: drop_map)
  from "3.IH"[OF this] show ?case by (simp add: comp_def)
qed

lemma marked_split:
  assumes e: "W @ out = pre @ xs @ post" and w: "\<forall>c \<in> set W. snd c"
    and x: "\<forall>c \<in> set xs. \<not> snd c" and ne: "xs \<noteq> []"
  shows "\<exists>pre'. out = pre' @ xs @ post"
proof -
  from e obtain us where "(W = pre @ us \<and> us @ out = xs @ post) \<or> (W @ us = pre \<and> out = us @ xs @ post)"
    by (auto simp: append_eq_append_conv2)
  then show ?thesis
  proof
    assume a: "W = pre @ us \<and> us @ out = xs @ post"
    show ?thesis
    proof (cases us)
      case Nil
      with a have "out = [] @ xs @ post" by simp
      then show ?thesis by blast
    next
      case (Cons u us')
      from ne obtain x0 xs' where xs: "xs = x0 # xs'" by (cases xs) auto
      with a Cons have "u = x0" by simp
      moreover from a Cons w have "snd u" by simp
      moreover from xs x have "\<not> snd x0" by simp
      ultimately show ?thesis by simp
    qed
  next
    assume "W @ us = pre \<and> out = us @ xs @ post"
    then show ?thesis by blast
  qed
qed

lemma retag_prefix:
  assumes "source ps = map fst ts" and "\<forall>m \<in> set (hits ps). f m \<noteq> []"
    and "retag f ps ts = xs @ post" and "\<forall>c \<in> set xs. \<not> snd c"
  shows "\<exists>post'. ts = xs @ post'"
  using assms
proof (induction ps arbitrary: ts xs rule: hits.induct)
  case 1
  then show ?case by simp
next
  case (2 c ps)
  from "2.prems"(1) obtain t0 ts' where ts: "ts = t0 # ts'"
    and s: "source ps = map fst ts'" by (cases ts) auto
  show ?case
  proof (cases xs)
    case Nil
    then show ?thesis by simp
  next
    case (Cons x xs')
    with "2.prems"(3) ts have x: "x = t0" and r: "retag f ps ts' = xs' @ post" by simp_all
    from "2.prems"(2) have h: "\<forall>m \<in> set (hits ps). f m \<noteq> []" by simp
    from "2.prems"(4) Cons have u: "\<forall>c \<in> set xs'. \<not> snd c" by simp
    from "2.IH"[OF s h r u] obtain post' where "ts' = xs' @ post'" by blast
    with ts x Cons show ?thesis by simp
  qed
next
  case (3 m ps)
  show ?case
  proof (cases xs)
    case Nil
    then show ?thesis by simp
  next
    case (Cons x xs')
    from "3.prems"(2) obtain w ws where w: "f m = w # ws" by (cases "f m") auto
    with "3.prems"(3) Cons have "x = (w, True)" by simp
    with "3.prems"(4) Cons show ?thesis by simp
  qed
qed

lemma retag_inside:
  assumes "source ps = map fst ts" and "\<forall>m \<in> set (hits ps). f m \<noteq> []"
    and "retag f ps ts = pre @ xs @ post" and "\<forall>c \<in> set xs. \<not> snd c" and "xs \<noteq> []"
  shows "\<exists>pre' post'. ts = pre' @ xs @ post'"
  using assms
proof (induction ps arbitrary: ts pre rule: hits.induct)
  case 1
  then show ?case by simp
next
  case (2 c ps)
  from "2.prems"(1) obtain t0 ts' where ts: "ts = t0 # ts'"
    and s: "source ps = map fst ts'" by (cases ts) auto
  from "2.prems"(2) have h: "\<forall>m \<in> set (hits ps). f m \<noteq> []" by simp
  show ?case
  proof (cases pre)
    case Nil
    with "2.prems"(3) have "retag f (Keep c # ps) ts = xs @ post" by simp
    from retag_prefix[OF "2.prems"(1) "2.prems"(2) this "2.prems"(4)]
    obtain post' where "ts = [] @ xs @ post'" by auto
    then show ?thesis by blast
  next
    case (Cons p pre')
    with "2.prems"(3) ts have r: "retag f ps ts' = pre' @ xs @ post" by simp
    from "2.IH"[OF s h r "2.prems"(4) "2.prems"(5)] obtain pre'' post'
      where "ts' = pre'' @ xs @ post'" by blast
    with ts have "ts = (t0 # pre'') @ xs @ post'" by simp
    then show ?thesis by blast
  qed
next
  case (3 m ps)
  from "3.prems"(1) have "m @ source ps = map fst ts" by simp
  then have "source ps = drop (length m) (map fst ts)" by (metis append_eq_conv_conj)
  then have s: "source ps = map fst (drop (length m) ts)" by (simp add: drop_map)
  from "3.prems"(2) have h: "\<forall>m \<in> set (hits ps). f m \<noteq> []" by simp
  from "3.prems"(3)
  have "map (\<lambda>c. (c, True)) (f m) @ retag f ps (drop (length m) ts) = pre @ xs @ post" by simp
  from marked_split[OF this _ "3.prems"(4) "3.prems"(5)]
  obtain pre' where r: "retag f ps (drop (length m) ts) = pre' @ xs @ post" by auto
  from "3.IH"[OF s h r "3.prems"(4) "3.prems"(5)] obtain pre'' post'
    where "drop (length m) ts = pre'' @ xs @ post'" by blast
  then have "ts = (take (length m) ts @ pre'') @ xs @ post'"
    by (metis append_take_drop_id append_assoc)
  then show ?case by blast
qed

text \<open>A stage that writes something for each match leaves no match of its own pattern
  among the code units that it keeps.\<close>

lemma established_aux:
  assumes "consumes r" and "\<And>s m. m \<in> set (hits (scan r s)) \<Longrightarrow> f m \<noteq> []"
    and "s = map fst ts" and "retag f (scan r s) ts = pre @ xs @ post"
    and "map fst post \<in> set (matches r (map fst (xs @ post)))"
    and "\<forall>c \<in> set xs. \<not> snd c"
  shows False
  using assms
proof (induction r s arbitrary: ts pre rule: scan.induct)
  case (1 r s)
  note c = "1.prems"(1) and w = "1.prems"(2) and s = "1.prems"(3) and e = "1.prems"(4)
    and m = "1.prems"(5) and x = "1.prems"(6)
  from consumes_matches[OF c m] have ne: "xs \<noteq> []" by auto
  have hs: "\<forall>m \<in> set (hits (scan r s)). f m \<noteq> []" using w by blast
  show ?case
  proof (cases "matches r s")
    case Nil
    show ?thesis
    proof (cases s)
      case Nil
      with \<open>matches r s = []\<close> have "scan r s = []" by (subst scan.simps) simp
      with e ne show ?thesis by simp
    next
      case (Cons c0 cs)
      with \<open>matches r s = []\<close> have sc: "scan r s = Keep c0 # scan r cs" by (subst scan.simps) simp
      from s Cons obtain t0 ts' where ts: "ts = t0 # ts'" and cs: "cs = map fst ts'"
        by (cases ts) auto
      show ?thesis
      proof (cases pre)
        case Nil
        with e have "retag f (scan r s) ts = xs @ post" by simp
        from retag_prefix[OF _ hs this x] s obtain post' where p: "ts = xs @ post'"
          by (auto simp: source_scan)
        from m have "map fst post \<in> set (matches r (map fst xs @ map fst post))" by simp
        from matches_context[OF this refl, of "map fst post'"] p s
        have "map fst post' \<in> set (matches r s)" by simp
        with \<open>matches r s = []\<close> show ?thesis by simp
      next
        case (Cons p pre')
        with e sc ts have "retag f (scan r cs) ts' = pre' @ xs @ post" by simp
        from "1.IH"(1)[OF \<open>matches r s = []\<close> \<open>s = c0 # cs\<close> c w cs this m x]
        show ?thesis .
      qed
    qed
  next
    case (Cons t1 rest)
    then have "t1 \<in> set (matches r s)" by simp
    from consumes_matches[OF c this] have lt: "length t1 < length s" .
    from matches_suffix[OF \<open>t1 \<in> set (matches r s)\<close>] obtain m0 where m0: "s = m0 @ t1" by blast
    then have tk: "take (length s - length t1) s = m0" by simp
    from Cons lt tk have sc: "scan r s = Hit m0 # scan r t1" by (subst scan.simps) simp
    with hs have "f m0 \<noteq> []" by simp
    from m0 s have "t1 = drop (length m0) (map fst ts)" by (metis append_eq_conv_conj)
    then have t1: "t1 = map fst (drop (length m0) ts)" by (simp add: drop_map)
    from e sc
    have "map (\<lambda>c. (c, True)) (f m0) @ retag f (scan r t1) (drop (length m0) ts) = pre @ xs @ post"
      by simp
    from marked_split[OF this _ x ne]
    obtain pre' where "retag f (scan r t1) (drop (length m0) ts) = pre' @ xs @ post" by auto
    from "1.IH"(2)[OF Cons lt c w t1 this m x] show ?thesis .
  qed
qed

lemma established:
  assumes "consumes r" and "\<forall>s. \<forall>m \<in> set (hits (scan r s)). f m \<noteq> []"
  shows "covered r (retag f (scan r (map fst ts)) ts)"
  unfolding covered_iff
proof (intro allI impI)
  fix pre xs post
  assume a: "retag f (scan r (map fst ts)) ts = pre @ xs @ post
      \<and> map fst post \<in> set (matches r (map fst (xs @ post)))"
  show "\<exists>c \<in> set xs. snd c"
  proof (rule ccontr)
    assume "\<not> (\<exists>c \<in> set xs. snd c)"
    then have x: "\<forall>c \<in> set xs. \<not> snd c" by simp
    from assms(2) have w: "\<And>s m. m \<in> set (hits (scan r s)) \<Longrightarrow> f m \<noteq> []" by blast
    from a have 1: "retag f (scan r (map fst ts)) ts = pre @ xs @ post"
      and 2: "map fst post \<in> set (matches r (map fst (xs @ post)))" by simp_all
    from established_aux[OF assms(1) w refl 1 2 x] show False .
  qed
qed

text \<open>A stage that writes something for each match brings no match of another pattern
  among the code units that it keeps.\<close>

lemma preserved:
  assumes c: "covered r' ts" and r': "consumes r'"
    and w: "\<forall>m \<in> set (hits (scan r (map fst ts))). f m \<noteq> []"
  shows "covered r' (retag f (scan r (map fst ts)) ts)"
  unfolding covered_iff
proof (intro allI impI)
  fix pre xs post
  assume a: "retag f (scan r (map fst ts)) ts = pre @ xs @ post
      \<and> map fst post \<in> set (matches r' (map fst (xs @ post)))"
  then have 1: "retag f (scan r (map fst ts)) ts = pre @ xs @ post"
    and 2: "map fst post \<in> set (matches r' (map fst (xs @ post)))" by simp_all
  show "\<exists>c \<in> set xs. snd c"
  proof (rule ccontr)
    assume "\<not> (\<exists>c \<in> set xs. snd c)"
    then have x: "\<forall>c \<in> set xs. \<not> snd c" by simp
    from consumes_matches[OF r' 2] have ne: "xs \<noteq> []" by auto
    from retag_inside[OF _ w 1 x ne] obtain pre' post' where ts: "ts = pre' @ xs @ post'"
      by (auto simp: source_scan)
    from 2 have "map fst post \<in> set (matches r' (map fst xs @ map fst post))" by simp
    from matches_context[OF this refl, of "map fst post'"]
    have "map fst post' \<in> set (matches r' (map fst (xs @ post')))" by simp
    with c ts have "\<exists>c \<in> set xs. snd c" unfolding covered_iff by blast
    with x show False by simp
  qed
qed

section \<open>The stages of the pipeline\<close>

lemma apply_stage_marked_fst: "map fst (apply_stage_marked st ts) = apply_stage st (map fst ts)"
  by (simp add: apply_stage_marked_def apply_stage_def replace_def retag_fst source_scan)

lemma fold_marked_fst:
  "map fst (fold apply_stage_marked sts ts) = fold apply_stage sts (map fst ts)"
  by (induction sts arbitrary: ts) (simp_all add: apply_stage_marked_fst)

lemma redact_all_stages:
  assumes "list_all (\<lambda>j. isConfidential j \<and> \<not> isPublic j \<longrightarrow> is_label (getGenericReplacement (category j))) js"
  shows "redact_all js s = Inr (fold apply_stage (record_stages js) s)"
  using assms
proof (induction js arbitrary: s)
  case Nil
  then show ?case by simp
next
  case (Cons j js)
  from Cons.prems have js: "list_all (\<lambda>j. isConfidential j \<and> \<not> isPublic j \<longrightarrow> is_label (getGenericReplacement (category j))) js"
    by simp
  show ?case
  proof (cases "isConfidential j \<and> \<not> isPublic j")
    case True
    with Cons.prems obtain l where l: "getGenericReplacement (category j) = Label l"
      by (cases "getGenericReplacement (category j)") auto
    from True l have "redact_info j s = Inr (replace (Lit (title j)) (\<lambda>_. l) s)"
      by (simp add: redact_info_label)
    with True l Cons.IH[OF js] show ?thesis by (simp add: apply_stage_def)
  next
    case False
    then have "redact_info j s = Inr s" by (auto simp: redact_info_def)
    with False Cons.IH[OF js] show ?thesis by auto
  qed
qed

lemma rules_stages: "fold apply_rule rs s = fold apply_stage (map rule_stage rs) s"
proof (induction rs arbitrary: s)
  case Nil
  then show ?case by simp
next
  case (Cons r rs)
  have "apply_rule r s = apply_stage (rule_stage r) s"
    by (cases "replacement r") (simp_all add: apply_rule_def apply_stage_def rule_stage_def)
  with Cons.IH show ?case by simp
qed

lemma anonymize_stages:
  assumes "list_all (\<lambda>j. isConfidential j \<and> \<not> isPublic j \<longrightarrow> is_label (getGenericReplacement (category j))) companyInfo"
  shows "anonymize currentYear content companyInfo
       = Inr (fold apply_stage (stages currentYear companyInfo) content)"
  by (simp add: anonymize_def redact_all_stages[OF assms] generalizeDates_total obscureNumbers_def
      rules_stages stages_def apply_stage_def)

lemma record_stages_label:
  "st \<in> set (record_stages js) \<Longrightarrow> \<exists>c l. getGenericReplacement c = Label l \<and> snd st = (\<lambda>_. l)"
proof (induction js)
  case Nil
  then show ?case by simp
next
  case (Cons j js)
  show ?case
  proof (cases "st \<in> set (record_stages js)")
    case True
    with Cons.IH show ?thesis by blast
  next
    case False
    with Cons.prems obtain l where "getGenericReplacement (category j) = Label l"
      and "st = (Lit (title j), \<lambda>_. l)"
      by (cases "getGenericReplacement (category j)") (auto split: if_splits)
    then have "getGenericReplacement (category j) = Label l \<and> snd st = (\<lambda>_. l)" by simp
    then show ?thesis by blast
  qed
qed

lemma truncate_date_hit:
  assumes m: "m \<in> set (hits (scan full_date_pattern s))"
  shows "truncate_date m \<noteq> []"
proof -
  from hits_scan[OF m] obtain s' u where u: "u \<in> set (matches full_date_pattern s')" "s' = m @ u"
    by blast
  from full_date_match[OF u(1)] obtain a b ms rest where ab: "is_digit a" "is_digit b" "digits12 ms"
    and s': "s' = [0x32, 0x30, a, b, 0x5E74] @ ms @ [0x6708] @ rest" by blast
  let ?p = "[0x32, 0x30, a, b, 0x5E74] @ ms @ [0x6708]"
  have "needs 0x65E5 full_date_pattern" by (simp add: full_date_pattern_def form_defs)
  from needs_matches[OF this u(1)] u(2) have d: "0x65E5 \<in> set m" by auto
  have "0x65E5 \<notin> set ?p"
    using ab by (auto simp: is_digit_def digits12_def list_all_iff)
  moreover from u(2) s' have "m @ u = ?p @ rest" by simp
  ultimately have pm: "starts_with m ?p"
    using d by (intro prefix_by_member)
  then obtain us where us: "m = ?p @ us" unfolding starts_with_conv by blast
  from truncate_full_date[OF ab, of us] us have "truncate_date m = ?p" by simp
  then show ?thesis by simp
qed

lemma stage_writes:
  assumes st: "st \<in> set (stages currentYear companyInfo)"
    and m: "m \<in> set (hits (scan (fst st) s))"
  shows "snd st m \<noteq> []"
proof -
  from st consider
      (of_record) "st \<in> set (record_stages companyInfo)"
    | (of_rule) r where "r \<in> set anonymizationRules" "st = rule_stage r"
    | (money) "st = (money_pattern, money_band)"
    | (percent) "st = (percent_pattern, percent_band)"
    | (date) "st = (full_date_pattern, truncate_date)"
    | (year) "st = (year_pattern, \<lambda>m. projr (relative_year currentYear m))"
    unfolding stages_def by auto
  then show ?thesis
  proof cases
    case of_record
    from record_stages_label[OF this] label_nonempty show ?thesis by auto
  next
    case of_rule
    from rule_labels[OF of_rule(1)] have "snd st m \<in> set fixed_labels"
      by (cases "replacement r") (simp_all add: of_rule(2) rule_stage_def)
    then show ?thesis by (rule fixed_label_nonempty)
  next
    case money
    have "needs 0x4E07 money_pattern" by (simp add: money_pattern_def)
    from m money have "m \<in> set (hits (scan money_pattern s))" by simp
    from needs_hit[OF \<open>needs 0x4E07 money_pattern\<close> this] have "m \<noteq> []" by auto
    moreover have "money_band m = m \<or> money_band m \<in> set fixed_labels"
      by (simp add: money_band_def fixed_labels_def Let_def)
    ultimately show ?thesis using money fixed_label_nonempty by auto
  next
    case percent
    have "percent_band m \<in> set fixed_labels"
      by (simp add: percent_band_def fixed_labels_def Let_def)
    with percent fixed_label_nonempty show ?thesis by auto
  next
    case date
    with m truncate_date_hit show ?thesis by auto
  next
    case year
    with m have "m \<in> set (hits (scan year_pattern s))" by simp
    from relative_year_hit[OF this, of currentYear] year show ?thesis by auto
  qed
qed

lemma rule_consumes: "r \<in> set anonymizationRules \<Longrightarrow> consumes (pattern r)"
proof -
  have "list_all (\<lambda>r. consumes (pattern r)) anonymizationRules"
    by (simp add: rule_defs form_defs)
  then show "r \<in> set anonymizationRules \<Longrightarrow> consumes (pattern r)"
    unfolding list_all_iff by blast
qed

lemma fold_preserved:
  assumes "covered r' ts" and "consumes r'"
    and "\<forall>st \<in> set sts. \<forall>s. \<forall>m \<in> set (hits (scan (fst st) s)). snd st m \<noteq> []"
  shows "covered r' (fold apply_stage_marked sts ts)"
  using assms
proof (induction sts arbitrary: ts)
  case Nil
  then show ?case by simp
next
  case (Cons st sts)
  from Cons.prems(3) have "\<forall>m \<in> set (hits (scan (fst st) (map fst ts))). snd st m \<noteq> []"
    by simp
  from preserved[OF Cons.prems(1) Cons.prems(2) this]
  have 1: "covered r' (apply_stage_marked st ts)" by (simp add: apply_stage_marked_def)
  from Cons.prems(3) have 2: "\<forall>st \<in> set sts. \<forall>s. \<forall>m \<in> set (hits (scan (fst st) s)). snd st m \<noteq> []"
    by simp
  from Cons.IH[OF 1 Cons.prems(2) 2] show ?case by simp
qed

lemma stages_covered:
  assumes r: "r \<in> set anonymizationRules"
  shows "covered (pattern r) (fold apply_stage_marked (stages currentYear companyInfo) ts)"
proof -
  from r obtain R1 R2 where R: "anonymizationRules = R1 @ r # R2" by (auto dest: split_list)
  let ?A = "record_stages companyInfo @ map rule_stage R1"
  let ?B = "map rule_stage R2
     @ [(money_pattern, money_band), (percent_pattern, percent_band),
        (full_date_pattern, truncate_date),
        (year_pattern, \<lambda>m. projr (relative_year currentYear m))]"
  have st: "stages currentYear companyInfo = ?A @ rule_stage r # ?B"
    by (simp add: stages_def R)
  have w: "\<forall>st \<in> set (stages currentYear companyInfo).
             \<forall>s. \<forall>m \<in> set (hits (scan (fst st) s)). snd st m \<noteq> []"
    using stage_writes by blast
  have p: "fst (rule_stage r) = pattern r" by (simp add: rule_stage_def)
  from w st have "\<forall>s. \<forall>m \<in> set (hits (scan (pattern r) s)). snd (rule_stage r) m \<noteq> []"
    by (simp add: p)
  from established[OF rule_consumes[OF r] this]
  have 1: "covered (pattern r) (apply_stage_marked (rule_stage r) (fold apply_stage_marked ?A ts))"
    by (simp add: apply_stage_marked_def p)
  from w st have 2: "\<forall>st \<in> set ?B. \<forall>s. \<forall>m \<in> set (hits (scan (fst st) s)). snd st m \<noteq> []"
    by simp
  from fold_preserved[OF 1 rule_consumes[OF r] 2] show ?thesis
    by (simp only: st fold_append fold_simps comp_apply)
qed

text \<open>
  C2 (as amended).  Whatever the content, and whatever the records as long as each record
  that is confidential and not public has a string label, \<^verbatim>\<open>anonymize\<close> returns the text of
  the marked pipeline, and in that text every match of the pattern of each of the seven
  rules, at every position and in every way the pattern can match there, takes in at least
  one code unit that a stage wrote: no stretch of code units that are all kept from the
  content is matched by a rule any more.
\<close>

theorem anonymize_matches_written:
  assumes "list_all (\<lambda>j. isConfidential j \<and> \<not> isPublic j \<longrightarrow> is_label (getGenericReplacement (category j))) companyInfo"
    and "r \<in> set anonymizationRules"
  shows "anonymize currentYear content companyInfo
           = Inr (map fst (anonymize_marked currentYear content companyInfo))
       \<and> covered (pattern r) (anonymize_marked currentYear content companyInfo)"
proof -
  have "map fst (anonymize_marked currentYear content companyInfo)
      = fold apply_stage (stages currentYear companyInfo) content"
    by (simp add: anonymize_marked_def fold_marked_fst comp_def)
  with anonymize_stages[OF assms(1)] stages_covered[OF assms(2)] show ?thesis
    by (simp add: anonymize_marked_def)
qed

theorem anonymize_matches_written_witness:
  "is_label (getGenericReplacement [0x69, 0x6E, 0x74, 0x65, 0x72, 0x6E, 0x61, 0x6C] \<comment> \<open>internal\<close>)
   \<and> hd anonymizationRules \<in> set anonymizationRules
   \<and> pattern (hd anonymizationRules) = companyName_pattern
   \<and> anonymize 2025 [0x73, 0x65, 0x63, 0x72, 0x65, 0x74, 0x20, 0x682A, 0x5F0F, 0x4F1A, 0x793E, 0x3042, 0x20, 0x49, 0x6E, 0x63, 0x2E] \<comment> \<open>secret, blank, kabushiki-gaisha and one kana, blank, Inc.\<close>
        [\<lparr>title = [0x73, 0x65, 0x63, 0x72, 0x65, 0x74] \<comment> \<open>secret\<close>, category = [0x69, 0x6E, 0x74, 0x65, 0x72, 0x6E, 0x61, 0x6C] \<comment> \<open>internal\<close>, isConfidential = True, isPublic = False\<rparr>]
       = Inr [0x793E, 0x5185, 0x60C5, 0x5831, 0x20, 0x67D0, 0x5927, 0x624B, 0x4F01, 0x696D, 0x20, 0x49, 0x6E, 0x63, 0x2E] \<comment> \<open>internal information, blank, a certain major company, blank, Inc.\<close>
   \<and> anonymize_marked 2025 [0x73, 0x65, 0x63, 0x72, 0x65, 0x74, 0x20, 0x682A, 0x5F0F, 0x4F1A, 0x793E, 0x3042, 0x20, 0x49, 0x6E, 0x63, 0x2E] \<comment> \<open>secret, blank, kabushiki-gaisha and one kana, blank, Inc.\<close>
        [\<lparr>title = [0x73, 0x65, 0x63, 0x72, 0x65, 0x74] \<comment> \<open>secret\<close>, category = [0x69, 0x6E, 0x74, 0x65, 0x72, 0x6E, 0x61, 0x6C] \<comment> \<open>internal\<close>, isConfidential = True, isPublic = False\<rparr>]
       = map (\<lambda>c. (c, True)) [0x793E, 0x5185, 0x60C5, 0x5831] \<comment> \<open>internal information\<close> @ [(0x20 \<comment> \<open> \<close>, False)]
         @ map (\<lambda>c. (c, True)) [0x67D0, 0x5927, 0x624B, 0x4F01, 0x696D] \<comment> \<open>a certain major company\<close> @ map (\<lambda>c. (c, False)) [0x20, 0x49, 0x6E, 0x63, 0x2E] \<comment> \<open> Inc.\<close>
   \<and> covered companyName_pattern
        (map (\<lambda>c. (c, True)) [0x793E, 0x5185, 0x60C5, 0x5831] \<comment> \<open>internal information\<close> @ [(0x20 \<comment> \<open> \<close>, False)]
         @ map (\<lambda>c. (c, True)) [0x67D0, 0x5927, 0x624B, 0x4F01, 0x696D] \<comment> \<open>a certain major company\<close> @ map (\<lambda>c. (c, False)) [0x20, 0x49, 0x6E, 0x63, 0x2E] \<comment> \<open> Inc.\<close>)"
proof -
  let ?i = "\<lparr>title = [0x73, 0x65, 0x63, 0x72, 0x65, 0x74], category = [0x69, 0x6E, 0x74, 0x65, 0x72, 0x6E, 0x61, 0x6C], isConfidential = True, isPublic = False\<rparr>"
  let ?c = "[0x73, 0x65, 0x63, 0x72, 0x65, 0x74, 0x20, 0x682A, 0x5F0F, 0x4F1A, 0x793E, 0x3042, 0x20, 0x49, 0x6E, 0x63, 0x2E]"
  have h0: "is_label (getGenericReplacement [0x69, 0x6E, 0x74, 0x65, 0x72, 0x6E, 0x61, 0x6C])"
    by (simp add: redact_defs)
  have h1: "hd anonymizationRules \<in> set anonymizationRules"
    by (simp add: anonymizationRules_def)
  have h2: "pattern (hd anonymizationRules) = companyName_pattern"
    by (simp add: anonymizationRules_def)
  have h3: "anonymize_marked 2025 ?c [?i]
       = map (\<lambda>c. (c, True)) [0x793E, 0x5185, 0x60C5, 0x5831] @ [(0x20, False)]
         @ map (\<lambda>c. (c, True)) [0x67D0, 0x5927, 0x624B, 0x4F01, 0x696D] @ map (\<lambda>c. (c, False)) [0x20, 0x49, 0x6E, 0x63, 0x2E]"
    by (simp add: anonymize_marked_def stages_def apply_stage_marked_def rule_stage_def
        redact_defs rule_defs num_defs date_defs engine)
  from anonymize_matches_written [of "[?i]" "hd anonymizationRules" 2025 ?c] h0 h1
  have h4: "anonymize 2025 ?c [?i] = Inr (map fst (anonymize_marked 2025 ?c [?i]))
       \<and> covered (pattern (hd anonymizationRules)) (anonymize_marked 2025 ?c [?i])"
    by simp
  from h4 have h5: "anonymize 2025 ?c [?i] = Inr [0x793E, 0x5185, 0x60C5, 0x5831, 0x20, 0x67D0, 0x5927, 0x624B, 0x4F01, 0x696D, 0x20, 0x49, 0x6E, 0x63, 0x2E]"
    unfolding h3 by simp
  from h4 have h6: "covered companyName_pattern
        (map (\<lambda>c. (c, True)) [0x793E, 0x5185, 0x60C5, 0x5831] @ [(0x20, False)]
         @ map (\<lambda>c. (c, True)) [0x67D0, 0x5927, 0x624B, 0x4F01, 0x696D] @ map (\<lambda>c. (c, False)) [0x20, 0x49, 0x6E, 0x63, 0x2E])"
    unfolding h2 h3 by simp
  from h0 h1 h2 h5 h3 h6 show ?thesis by (intro conjI)
qed

end
